theory Spec2Isabelle
  imports Main
begin

section \<open>The event bus of \<^verbatim>\<open>event_bus/bus.py\<close>\<close>

text \<open>
  The class \<^verbatim>\<open>EventBus\<close> has the single slot \<^verbatim>\<open>_events\<close>, a
  \<^verbatim>\<open>defaultdict(set)\<close> from event names to sets of subscribed callables.

  \<^item> Callables are objects, known by their identity, a number. The table \<open>F\<close> that the
    methods take gives the object of each identity: whether it is hashable, its
    \<^verbatim>\<open>__name__\<close> (a string) if it has one, and its behaviour. A function made by \<^verbatim>\<open>def\<close> is hashable
    and has a name; a \<^verbatim>\<open>functools.partial\<close> object has no name; an instance of a class with
    \<^verbatim>\<open>__eq__\<close> and no \<^verbatim>\<open>__hash__\<close> is not hashable. A set holds identities: two
    callables are the same member when they are the same object.
  \<^item> The behaviour of a callable takes the positional arguments, the keyword arguments and
    the whole state, the bus included, and gives back a raised exception or a returned value
    together with the new state: a subscriber may subscribe, remove and emit while the bus is
    dispatching. A call always comes back; a callable that runs forever is not modelled.
  \<^item> The state holds the dictionary, the set objects and the world outside the bus. A set is
    an object too: the dictionary holds references, and \<open>heap\<close> gives the members of each set
    object, as a list of identities without repetition. The order of the list stands for the
    order in which Python iterates the set, which Python does not specify: that a new member
    goes last and that a copy keeps the order are conventions, and so is the member that an
    iteration yields next after the members were changed and the size was not. No property
    below depends on these.
  \<^item> The dictionary is an association list in insertion order, as a Python \<^verbatim>\<open>dict\<close>.
  \<^item> Every method that calls callables also returns the calls it made itself, in order, each
    with its outcome, so that "is invoked" can be stated. What a callable does when called,
    calls of its own included, is its behaviour.
\<close>

subsection \<open>Exceptions, states, callables\<close>

datatype exn = KeyError | TypeError | AttributeError | RuntimeError | Other string

record ('e, 'w) state =
  events :: "('e \<times> nat) list"
  heap :: "(nat \<times> nat list) list"
  world :: 'w

record ('e, 'v, 'w) func =
  hashable :: bool
  fname :: "string option"
  body :: "'v list \<Rightarrow> (string \<times> 'v) list \<Rightarrow> ('e, 'w) state \<Rightarrow> (exn + 'v) \<times> ('e, 'w) state"

record 'v invocation =
  callee :: nat
  given_args :: "'v list"
  given_kwargs :: "(string \<times> 'v) list"
  outcome :: "exn + 'v"

text \<open>\<^verbatim>\<open>func(*args, **kwargs)\<close>, for the callable of identity \<open>i\<close>.\<close>

definition call ::
  "(nat \<Rightarrow> ('e, 'v, 'w) func) \<Rightarrow> nat \<Rightarrow> 'v list \<Rightarrow> (string \<times> 'v) list \<Rightarrow> ('e, 'w) state
     \<Rightarrow> (exn + 'v) \<times> ('e, 'w) state \<times> 'v invocation" where
  "call F i args kwargs st =
     (let (r, st') = body (F i) args kwargs st
      in (r, st', \<lparr>callee = i, given_args = args, given_kwargs = kwargs, outcome = r\<rparr>))"

subsection \<open>The containers\<close>

text \<open>The members of the set object \<open>r\<close>, and a reference that no object has yet.\<close>

definition deref :: "('e, 'w) state \<Rightarrow> nat \<Rightarrow> nat list" where
  "deref st r = (case map_of (heap st) r of Some s \<Rightarrow> s | None \<Rightarrow> [])"

definition fresh :: "('e, 'w) state \<Rightarrow> nat" where
  "fresh st = Suc (foldr max (map fst (heap st) @ map snd (events st)) 0)"

text \<open>\<^verbatim>\<open>d[k] = v\<close>: an existing key keeps its place, a new key goes last.\<close>

fun setitem :: "'k \<Rightarrow> 'a \<Rightarrow> ('k \<times> 'a) list \<Rightarrow> ('k \<times> 'a) list" where
  "setitem k v [] = [(k, v)]"
| "setitem k v (p # d) = (if fst p = k then (k, v) # d else p # setitem k v d)"

text \<open>\<^verbatim>\<open>self._events[k]\<close> on the \<^verbatim>\<open>defaultdict(set)\<close>: for a missing key a new, empty
  set is made and inserted. The result is the reference of the set.\<close>

definition getitem :: "'e \<Rightarrow> ('e, 'w) state \<Rightarrow> nat \<times> ('e, 'w) state" where
  "getitem k st =
     (case map_of (events st) k of
        Some r \<Rightarrow> (r, st)
      | None \<Rightarrow>
          (fresh st,
           st\<lparr>events := events st @ [(k, fresh st)], heap := heap st @ [(fresh st, [])]\<rparr>))"

text \<open>\<^verbatim>\<open>s.add(f)\<close> raises \<^verbatim>\<open>TypeError\<close> for an unhashable \<open>f\<close>; \<^verbatim>\<open>s.copy()\<close> makes a
  new set object; \<^verbatim>\<open>s.remove(f)\<close> raises \<^verbatim>\<open>KeyError\<close> when \<open>f\<close> is not a member. All
  three act on the set object \<open>r\<close> itself.\<close>

definition set_add ::
  "(nat \<Rightarrow> ('e, 'v, 'w) func) \<Rightarrow> nat \<Rightarrow> nat \<Rightarrow> ('e, 'w) state \<Rightarrow> (exn + unit) \<times> ('e, 'w) state" where
  "set_add F i r st =
     (if \<not> hashable (F i) then (Inl TypeError, st)
      else if i \<in> set (deref st r) then (Inr (), st)
      else (Inr (), st\<lparr>heap := setitem r (deref st r @ [i]) (heap st)\<rparr>))"

definition set_copy :: "nat \<Rightarrow> ('e, 'w) state \<Rightarrow> nat \<times> ('e, 'w) state" where
  "set_copy r st = (fresh st, st\<lparr>heap := heap st @ [(fresh st, deref st r)]\<rparr>)"

definition set_remove :: "nat \<Rightarrow> nat \<Rightarrow> ('e, 'w) state \<Rightarrow> (exn + unit) \<times> ('e, 'w) state" where
  "set_remove i r st =
     (if i \<in> set (deref st r)
      then (Inr (), st\<lparr>heap := setitem r (remove1 i (deref st r)) (heap st)\<rparr>)
      else (Inl KeyError, st))"

text \<open>The members stored under an event name, if it has an entry; and the subscribers of an
  event, none when it has no entry. Both only read the state; they are notions of the
  specification, used to state the properties.\<close>

definition stored :: "'e \<Rightarrow> ('e, 'w) state \<Rightarrow> nat list option" where
  "stored k st = map_option (deref st) (map_of (events st) k)"

definition subscribers :: "'e \<Rightarrow> ('e, 'w) state \<Rightarrow> nat list" where
  "subscribers k st = (case stored k st of Some s \<Rightarrow> s | None \<Rightarrow> [])"

subsection \<open>The methods\<close>

text \<open>\<^verbatim>\<open>__init__\<close>: the dictionary is empty. \<open>w\<close> is the world the bus is created in.\<close>

definition EventBus :: "'w \<Rightarrow> ('e, 'w) state" where
  "EventBus w = \<lparr>events = [], heap = [], world = w\<rparr>"

text \<open>\<^verbatim>\<open>on(event)\<close> returns the decorator \<^verbatim>\<open>outer\<close>; \<open>on F event func\<close> is
  \<^verbatim>\<open>outer(func)\<close> for the callable of identity \<open>func\<close>. The lookup comes first, then
  \<^verbatim>\<open>add\<close>, which may raise. The result is the new function object \<^verbatim>\<open>wrapper\<close>:
  \<^verbatim>\<open>functools.wraps\<close> gives it the \<^verbatim>\<open>__name__\<close> of \<open>func\<close> if \<open>func\<close> has one, and
  otherwise leaves it the name of its \<^verbatim>\<open>def\<close>.\<close>

definition on ::
  "(nat \<Rightarrow> ('e, 'v, 'w) func) \<Rightarrow> 'e \<Rightarrow> nat \<Rightarrow> ('e, 'w) state
     \<Rightarrow> (exn + ('e, 'v, 'w) func) \<times> ('e, 'w) state" where
  "on F event func st =
     (let (r, st1) = getitem event st in
      (case set_add F func r st1 of
         (Inl err, st2) \<Rightarrow> (Inl err, st2)
       | (Inr u, st2) \<Rightarrow>
           (Inr \<lparr>hashable = True,
                 fname = (case fname (F func) of Some n \<Rightarrow> Some n | None \<Rightarrow> Some ''wrapper''),
                 body = (\<lambda>args kwargs. body (F func) args kwargs)\<rparr>,
            st2)))"

text \<open>\<^verbatim>\<open>event_funcs\<close> is a generator function: a call of it binds \<open>name\<close> and returns a
  generator object without running any of the body. The first \<^verbatim>\<open>next\<close> runs the body up
  to its first \<^verbatim>\<open>yield\<close>: it looks \<^verbatim>\<open>self._events[name]\<close> up and starts iterating the set
  it finds. A set iterator remembers the set object, the size the set had when the iteration
  began, and how far it has got; each \<^verbatim>\<open>next\<close> first compares the size of the set with the
  remembered one and raises \<^verbatim>\<open>RuntimeError\<close> ("Set changed size during iteration") when
  they differ.\<close>

datatype 'e generator = Created 'e | Suspended nat nat nat | Finished

definition event_funcs :: "'e \<Rightarrow> ('e, 'w) state \<Rightarrow> 'e generator \<times> ('e, 'w) state" where
  "event_funcs name st = (Created name, st)"

definition setiter_next ::
  "nat \<Rightarrow> nat \<Rightarrow> nat \<Rightarrow> ('e, 'w) state \<Rightarrow> (exn + nat option) \<times> 'e generator" where
  "setiter_next r used pos st =
     (if length (deref st r) \<noteq> used then (Inl RuntimeError, Finished)
      else if pos < used then (Inr (Some (deref st r ! pos)), Suspended r used (Suc pos))
      else (Inr None, Finished))"

fun gen_next ::
  "'e generator \<Rightarrow> ('e, 'w) state \<Rightarrow> (exn + nat option) \<times> 'e generator \<times> ('e, 'w) state" where
  "gen_next (Created name) st =
     (let (r, st1) = getitem name st;
          (y, g) = setiter_next r (length (deref st1 r)) 0 st1
      in (y, g, st1))"
| "gen_next (Suspended r used pos) st =
     (let (y, g) = setiter_next r used pos st in (y, g, st))"
| "gen_next Finished st = (Inr None, Finished, st)"

text \<open>How many more members a generator can yield at most, for the termination of the loops
  that consume it.\<close>

fun rank :: "'e generator \<Rightarrow> nat \<times> nat" where
  "rank (Created name) = (1, 0)"
| "rank (Suspended r used pos) = (0, Suc used - pos)"
| "rank Finished = (0, 0)"

text \<open>\<^verbatim>\<open>emit\<close>: the loop draws from the generator, so it reads the set anew at each step;
  it ends at the first exception, of a subscriber or of the iteration.\<close>

function emit_loop ::
  "(nat \<Rightarrow> ('e, 'v, 'w) func) \<Rightarrow> 'e generator \<Rightarrow> 'v list \<Rightarrow> (string \<times> 'v) list
     \<Rightarrow> ('e, 'w) state \<Rightarrow> (exn + unit) \<times> ('e, 'w) state \<times> 'v invocation list" where
  "emit_loop F g args kwargs st =
     (case gen_next g st of
        (Inl err, g', st1) \<Rightarrow> (Inl err, st1, [])
      | (Inr None, g', st1) \<Rightarrow> (Inr (), st1, [])
      | (Inr (Some func), g', st1) \<Rightarrow>
          (case call F func args kwargs st1 of
             (Inl x, st2, c) \<Rightarrow> (Inl x, st2, [c])
           | (Inr v, st2, c) \<Rightarrow>
               (case emit_loop F g' args kwargs st2 of (r, st3, cs) \<Rightarrow> (r, st3, c # cs))))"
  by pat_completeness auto
termination
  by (relation "inv_image (less_than <*lex*> less_than) (\<lambda>(F, g, args, kwargs, st). rank g)")
     (auto simp: setiter_next_def split: prod.splits if_splits
           elim!: gen_next.elims[OF sym])

definition emit ::
  "(nat \<Rightarrow> ('e, 'v, 'w) func) \<Rightarrow> 'e \<Rightarrow> 'v list \<Rightarrow> (string \<times> 'v) list \<Rightarrow> ('e, 'w) state
     \<Rightarrow> (exn + unit) \<times> ('e, 'w) state \<times> 'v invocation list" where
  "emit F event args kwargs st =
     (let (g, st0) = event_funcs event st in emit_loop F g args kwargs st0)"

text \<open>\<^verbatim>\<open>emit_only\<close>: \<open>func_names\<close> is a \<^verbatim>\<open>str\<close> or a list of them. Reading
  \<^verbatim>\<open>func.__name__\<close> raises \<^verbatim>\<open>AttributeError\<close> when the callable has no name.\<close>

datatype func_names = Str string | Names "string list"

fun normalize :: "func_names \<Rightarrow> string list" where
  "normalize (Str s) = [s]"
| "normalize (Names ns) = ns"

function emit_only_loop ::
  "(nat \<Rightarrow> ('e, 'v, 'w) func) \<Rightarrow> 'e generator \<Rightarrow> string list \<Rightarrow> 'v list \<Rightarrow> (string \<times> 'v) list
     \<Rightarrow> ('e, 'w) state \<Rightarrow> (exn + unit) \<times> ('e, 'w) state \<times> 'v invocation list" where
  "emit_only_loop F g ns args kwargs st =
     (case gen_next g st of
        (Inl err, g', st1) \<Rightarrow> (Inl err, st1, [])
      | (Inr None, g', st1) \<Rightarrow> (Inr (), st1, [])
      | (Inr (Some func), g', st1) \<Rightarrow>
          (case fname (F func) of
             None \<Rightarrow> (Inl AttributeError, st1, [])
           | Some n \<Rightarrow>
               if n \<in> set ns then
                 (case call F func args kwargs st1 of
                    (Inl x, st2, c) \<Rightarrow> (Inl x, st2, [c])
                  | (Inr v, st2, c) \<Rightarrow>
                      (case emit_only_loop F g' ns args kwargs st2 of
                         (r, st3, cs) \<Rightarrow> (r, st3, c # cs)))
               else emit_only_loop F g' ns args kwargs st1))"
  by pat_completeness auto
termination
  by (relation "inv_image (less_than <*lex*> less_than) (\<lambda>(F, g, ns, args, kwargs, st). rank g)")
     (auto simp: setiter_next_def split: prod.splits if_splits
           elim!: gen_next.elims[OF sym])

definition emit_only ::
  "(nat \<Rightarrow> ('e, 'v, 'w) func) \<Rightarrow> 'e \<Rightarrow> func_names \<Rightarrow> 'v list \<Rightarrow> (string \<times> 'v) list
     \<Rightarrow> ('e, 'w) state \<Rightarrow> (exn + unit) \<times> ('e, 'w) state \<times> 'v invocation list" where
  "emit_only F event func_names args kwargs st =
     (let (g, st0) = event_funcs event st
      in emit_only_loop F g (normalize func_names) args kwargs st0)"

text \<open>\<^verbatim>\<open>emit_after(event)\<close> returns the decorator \<^verbatim>\<open>outer\<close>, and \<^verbatim>\<open>outer(func)\<close>
  returns \<^verbatim>\<open>wrapper\<close>. \<open>emit_after F event func args kwargs\<close> is a call
  \<^verbatim>\<open>wrapper(*args, **kwargs)\<close>, for the callable of identity \<open>func\<close>.\<close>

definition emit_after ::
  "(nat \<Rightarrow> ('e, 'v, 'w) func) \<Rightarrow> 'e \<Rightarrow> nat \<Rightarrow> 'v list \<Rightarrow> (string \<times> 'v) list \<Rightarrow> ('e, 'w) state
     \<Rightarrow> (exn + 'v) \<times> ('e, 'w) state \<times> 'v invocation list" where
  "emit_after F event func args kwargs st =
     (case call F func args kwargs st of
        (Inl x, st1, c) \<Rightarrow> (Inl x, st1, [c])
      | (Inr returned, st1, c) \<Rightarrow>
          (case emit F event [] [] st1 of
             (Inl x, st2, cs) \<Rightarrow> (Inl x, st2, c # cs)
           | (Inr u, st2, cs) \<Rightarrow> (Inr returned, st2, c # cs)))"

text \<open>\<^verbatim>\<open>event_func_names\<close>: a list comprehension over the set itself.\<close>

fun names_loop :: "(nat \<Rightarrow> ('e, 'v, 'w) func) \<Rightarrow> nat list \<Rightarrow> exn + string list" where
  "names_loop F [] = Inr []"
| "names_loop F (func # funcs) =
     (case fname (F func) of
        None \<Rightarrow> Inl AttributeError
      | Some n \<Rightarrow> (case names_loop F funcs of Inl err \<Rightarrow> Inl err | Inr ns \<Rightarrow> Inr (n # ns)))"

definition event_func_names ::
  "(nat \<Rightarrow> ('e, 'v, 'w) func) \<Rightarrow> 'e \<Rightarrow> ('e, 'w) state \<Rightarrow> (exn + string list) \<times> ('e, 'w) state" where
  "event_func_names F name st =
     (let (r, st1) = getitem name st in (names_loop F (deref st1 r), st1))"

text \<open>\<^verbatim>\<open>subscribed_event_count\<close>: the loop fills a \<^verbatim>\<open>Counter\<close>, whose values are
  then summed. \<^verbatim>\<open>items()\<close> reads the dictionary without inserting anything.\<close>

fun count_loop :: "('e, 'w) state \<Rightarrow> ('e \<times> nat) list \<Rightarrow> ('e \<times> int) list \<Rightarrow> ('e \<times> int) list" where
  "count_loop st [] event_counter = event_counter"
| "count_loop st ((key, vals) # items) event_counter =
     count_loop st items (setitem key (int (length (deref st vals))) event_counter)"

definition subscribed_event_count :: "('e, 'w) state \<Rightarrow> int" where
  "subscribed_event_count st = sum_list (map snd (count_loop st (events st) []))"

definition event_count :: "('e, 'w) state \<Rightarrow> int" where
  "event_count st = subscribed_event_count st"

text \<open>\<^verbatim>\<open>remove_subscriber\<close>: the loop draws from the generator over the stored set and
  removes from the copy, another set object; the copy then replaces the stored set in the
  dictionary. An exception leaves before the replacement.\<close>

function remove_loop ::
  "(nat \<Rightarrow> ('e, 'v, 'w) func) \<Rightarrow> 'e generator \<Rightarrow> string \<Rightarrow> nat \<Rightarrow> ('e, 'w) state
     \<Rightarrow> (exn + unit) \<times> ('e, 'w) state" where
  "remove_loop F g func_name event_funcs_copy st =
     (case gen_next g st of
        (Inl err, g', st1) \<Rightarrow> (Inl err, st1)
      | (Inr None, g', st1) \<Rightarrow> (Inr (), st1)
      | (Inr (Some func), g', st1) \<Rightarrow>
          (case fname (F func) of
             None \<Rightarrow> (Inl AttributeError, st1)
           | Some n \<Rightarrow>
               if n = func_name then
                 (case set_remove func event_funcs_copy st1 of
                    (Inl err, st2) \<Rightarrow> (Inl err, st2)
                  | (Inr u, st2) \<Rightarrow> remove_loop F g' func_name event_funcs_copy st2)
               else remove_loop F g' func_name event_funcs_copy st1))"
  by pat_completeness auto
termination
  by (relation "inv_image (less_than <*lex*> less_than) (\<lambda>(F, g, n, c, st). rank g)")
     (auto simp: setiter_next_def split: prod.splits if_splits
           elim!: gen_next.elims[OF sym])

definition remove_subscriber ::
  "(nat \<Rightarrow> ('e, 'v, 'w) func) \<Rightarrow> 'e \<Rightarrow> string \<Rightarrow> ('e, 'w) state
     \<Rightarrow> (exn + unit) \<times> ('e, 'w) state" where
  "remove_subscriber F event func_name st =
     (let (r, st1) = getitem event st;
          (event_funcs_copy, st2) = set_copy r st1;
          (g, st3) = event_funcs event st2
      in (case remove_loop F g func_name event_funcs_copy st3 of
            (Inl err, st4) \<Rightarrow> (Inl err, st4)
          | (Inr u, st4) \<Rightarrow>
              (Inr (), st4\<lparr>events := setitem event event_funcs_copy (events st4)\<rparr>)))"

subsection \<open>Notions used to state the properties\<close>

text \<open>\<open>run F r funcs args kwargs st\<close>: the callables \<open>funcs\<close> are called one after the other
  with these arguments, from the state \<open>st\<close>. If each call returns and leaves the set object
  \<open>r\<close> with the members it had, the result is the state after the last call, with the calls
  made; if a call raises or changes the set, there is no result.\<close>

fun run ::
  "(nat \<Rightarrow> ('e, 'v, 'w) func) \<Rightarrow> nat \<Rightarrow> nat list \<Rightarrow> 'v list \<Rightarrow> (string \<times> 'v) list
     \<Rightarrow> ('e, 'w) state \<Rightarrow> (('e, 'w) state \<times> 'v invocation list) option" where
  "run F r [] args kwargs st = Some (st, [])"
| "run F r (i # funcs) args kwargs st =
     (case call F i args kwargs st of
        (Inl x, st', c) \<Rightarrow> None
      | (Inr v, st', c) \<Rightarrow>
          if deref st' r = deref st r then
            (case run F r funcs args kwargs st' of
               None \<Rightarrow> None
             | Some (st'', cs) \<Rightarrow> Some (st'', c # cs))
          else None)"

text \<open>\<open>named_in F ns i\<close>: the callable \<open>i\<close> has a \<^verbatim>\<open>__name__\<close>, and it is one of \<open>ns\<close>.\<close>

definition named_in :: "(nat \<Rightarrow> ('e, 'v, 'w) func) \<Rightarrow> string list \<Rightarrow> nat \<Rightarrow> bool" where
  "named_in F ns i = (case fname (F i) of Some n \<Rightarrow> n \<in> set ns | None \<Rightarrow> False)"

text \<open>What the dictionary holds, as values: each event name with the members of its set.\<close>

definition contents :: "('e, 'w) state \<Rightarrow> ('e \<times> nat list) list" where
  "contents st = map (\<lambda>p. (fst p, deref st (snd p))) (events st)"

text \<open>The representation invariant: the dictionary has no key twice, and no set has a member
  twice. Python keeps both, whatever the program does.\<close>

definition wf_state :: "('e, 'w) state \<Rightarrow> bool" where
  "wf_state st = (distinct (map fst (events st)) \<and> (\<forall>s\<in>snd ` set (heap st). distinct s))"

definition keeps_wf :: "(nat \<Rightarrow> ('e, 'v, 'w) func) \<Rightarrow> bool" where
  "keeps_wf F = (\<forall>i args kwargs st. wf_state st \<longrightarrow> wf_state (snd (body (F i) args kwargs st)))"

text \<open>The states that a program can reach: from \<^verbatim>\<open>EventBus()\<close> by calls of the public
  methods and steps of the generators they return.\<close>

inductive reachable :: "(nat \<Rightarrow> ('e, 'v, 'w) func) \<Rightarrow> ('e, 'w) state \<Rightarrow> bool"
  for F :: "nat \<Rightarrow> ('e, 'v, 'w) func" where
  init: "reachable F (EventBus w)"
| on: "reachable F st \<Longrightarrow> reachable F (snd (on F event func st))"
| emit: "reachable F st \<Longrightarrow> reachable F (fst (snd (emit F event args kwargs st)))"
| emit_only:
    "reachable F st \<Longrightarrow> reachable F (fst (snd (emit_only F event func_names args kwargs st)))"
| emit_after:
    "reachable F st \<Longrightarrow> reachable F (fst (snd (emit_after F event func args kwargs st)))"
| event_funcs: "reachable F st \<Longrightarrow> reachable F (snd (event_funcs name st))"
| gen_next: "reachable F st \<Longrightarrow> reachable F (snd (snd (gen_next g st)))"
| event_func_names: "reachable F st \<Longrightarrow> reachable F (snd (event_func_names F name st))"
| remove_subscriber:
    "reachable F st \<Longrightarrow> reachable F (snd (remove_subscriber F event func_name st))"

subsection \<open>A concrete scenario\<close>

text \<open>Values, some callables and the table of them, for the concrete instances below. The
  world is a counter: \<^verbatim>\<open>inc\<close> increments it; \<^verbatim>\<open>log\<close> and \<^verbatim>\<open>answer\<close> leave it
  alone; \<^verbatim>\<open>boom\<close> and \<^verbatim>\<open>bang\<close> raise; \<open>partial_obj\<close> is a callable without a
  \<^verbatim>\<open>__name__\<close>, \<open>unhashable_obj\<close> one that cannot be hashed; \<^verbatim>\<open>meddler\<close> subscribes
  \<^verbatim>\<open>answer\<close> to \<^verbatim>\<open>"tick"\<close> when it is called. The identities 1 and 5 are two function
  objects alike in everything, name included.\<close>

datatype val = NoneV | IntV int | StrV string

definition inc :: "(string, val, int) func" where
  "inc = \<lparr>hashable = True, fname = Some ''inc'',
          body = (\<lambda>args kwargs st. (Inr NoneV, st\<lparr>world := world st + 1\<rparr>))\<rparr>"

definition logger :: "(string, val, int) func" where
  "logger = \<lparr>hashable = True, fname = Some ''log'', body = (\<lambda>args kwargs st. (Inr NoneV, st))\<rparr>"

definition boom :: "(string, val, int) func" where
  "boom = \<lparr>hashable = True, fname = Some ''boom'',
           body = (\<lambda>args kwargs st. (Inl (Other ''boom''), st))\<rparr>"

definition bang :: "(string, val, int) func" where
  "bang = \<lparr>hashable = True, fname = Some ''bang'',
           body = (\<lambda>args kwargs st. (Inl (Other ''bang''), st))\<rparr>"

definition answer :: "(string, val, int) func" where
  "answer = \<lparr>hashable = True, fname = Some ''answer'',
             body = (\<lambda>args kwargs st. (Inr (IntV 42), st))\<rparr>"

definition partial_obj :: "(string, val, int) func" where
  "partial_obj = \<lparr>hashable = True, fname = None, body = (\<lambda>args kwargs st. (Inr NoneV, st))\<rparr>"

definition unhashable_obj :: "(string, val, int) func" where
  "unhashable_obj = \<lparr>hashable = False, fname = None, body = (\<lambda>args kwargs st. (Inr NoneV, st))\<rparr>"

definition objs1 :: "nat \<Rightarrow> (string, val, int) func" where
  "objs1 i =
     (if i = 1 then inc else if i = 2 then logger else if i = 3 then boom
      else if i = 4 then answer else if i = 5 then inc else if i = 6 then bang
      else if i = 7 then partial_obj else unhashable_obj)"

definition meddler :: "(string, val, int) func" where
  "meddler = \<lparr>hashable = True, fname = Some ''meddler'',
              body = (\<lambda>args kwargs st. (Inr NoneV, snd (on objs1 ''tick'' 4 st)))\<rparr>"

definition objs :: "nat \<Rightarrow> (string, val, int) func" where
  "objs i = (if i = 9 then meddler else objs1 i)"

definition s0 :: "(string, int) state" where
  "s0 = EventBus 0"

definition tick_state :: "(string, int) state" where
  "tick_state = snd (on objs ''tick'' 2 (snd (on objs ''tick'' 1 s0)))"

definition mixed_state :: "(string, int) state" where
  "mixed_state = snd (on objs ''tick'' 2 (snd (on objs ''tick'' 3 (snd (on objs ''tick'' 1 s0)))))"

definition boom_state :: "(string, int) state" where
  "boom_state = snd (on objs ''tick'' 1 (snd (on objs ''tick'' 3 s0)))"

definition bang_state :: "(string, int) state" where
  "bang_state = snd (on objs ''tick'' 6 (snd (on objs ''tick'' 3 s0)))"

definition partial_state :: "(string, int) state" where
  "partial_state = snd (on objs ''tick'' 7 (snd (on objs ''tick'' 1 s0)))"

definition meddler_state :: "(string, int) state" where
  "meddler_state = snd (on objs ''tick'' 1 (snd (on objs ''tick'' 9 s0)))"

text \<open>The state after \<^verbatim>\<open>inc\<close> has been removed from \<open>tick_state\<close>: the dictionary refers to
  the copy, which holds \<^verbatim>\<open>log\<close> alone.\<close>

definition log_state :: "(string, int) state" where
  "log_state = \<lparr>events = [(''tick'', 2)], heap = [(1, [1, 2]), (2, [2])], world = 0\<rparr>"

section \<open>Lemmas\<close>

subsection \<open>The dictionary and the set objects\<close>

lemma map_of_setitem: "map_of (setitem k v d) = (map_of d)(k \<mapsto> v)"
  by (induction d) (auto simp: fun_eq_iff)

lemma setitem_fresh: "k \<notin> fst ` set d \<Longrightarrow> setitem k v d = d @ [(k, v)]"
  by (induction d) auto

lemma map_fst_setitem:
  "map fst (setitem k v d) = (if k \<in> fst ` set d then map fst d else map fst d @ [k])"
  by (induction d) auto

lemma distinct_setitem: "distinct (map fst d) \<Longrightarrow> distinct (map fst (setitem k v d))"
  by (simp add: map_fst_setitem)

lemma set_setitem_subset: "set (setitem k v d) \<subseteq> insert (k, v) (set d)"
  by (induction d) auto

lemma foldr_max_ge: "x \<in> set xs \<Longrightarrow> x \<le> foldr max xs (0::nat)"
  by (induction xs) (auto simp: max_def)

lemma fresh_not_in_heap: "fresh st \<notin> fst ` set (heap st)"
proof
  assume "fresh st \<in> fst ` set (heap st)"
  then have "fresh st \<in> set (map fst (heap st) @ map snd (events st))" by simp
  then have "fresh st \<le> foldr max (map fst (heap st) @ map snd (events st)) 0"
    by (rule foldr_max_ge)
  then show False by (simp add: fresh_def)
qed

lemma fresh_not_in_events: "fresh st \<notin> snd ` set (events st)"
proof
  assume "fresh st \<in> snd ` set (events st)"
  then have "fresh st \<in> set (map fst (heap st) @ map snd (events st))" by simp
  then have "fresh st \<le> foldr max (map fst (heap st) @ map snd (events st)) 0"
    by (rule foldr_max_ge)
  then show False by (simp add: fresh_def)
qed

lemma map_of_fresh: "map_of (heap st) (fresh st) = None"
  using fresh_not_in_heap[of st] by (simp add: map_of_eq_None_iff)

lemma deref_heap_setitem:
  "deref (st\<lparr>heap := setitem r s (heap st)\<rparr>) r' = (if r' = r then s else deref st r')"
  by (simp add: deref_def map_of_setitem)

lemma deref_heap_append:
  "deref (st\<lparr>heap := heap st @ [(fresh st, s)]\<rparr>) r' = (if r' = fresh st then s else deref st r')"
  by (auto simp: deref_def map_add_def map_of_fresh split: option.splits)

lemma deref_events_update [simp]: "deref (st\<lparr>events := ev\<rparr>) r = deref st r"
  by (simp add: deref_def)

lemma map_of_events_ref: "map_of (events st) k = Some r \<Longrightarrow> r \<noteq> fresh st"
  using fresh_not_in_events[of st] by (metis image_eqI map_of_SomeD snd_conv)

lemma subscribers_Some: "map_of (events st) k = Some r \<Longrightarrow> subscribers k st = deref st r"
  by (simp add: subscribers_def stored_def)

lemma subscribers_None: "map_of (events st) k = None \<Longrightarrow> subscribers k st = []"
  by (simp add: subscribers_def stored_def)

lemma getitem_seen: "map_of (events st) k = Some r \<Longrightarrow> getitem k st = (r, st)"
  by (simp add: getitem_def)

lemma getitem_unseen:
  "map_of (events st) k = None \<Longrightarrow>
   getitem k st = (fresh st, st\<lparr>events := events st @ [(k, fresh st)],
                                heap := heap st @ [(fresh st, [])]\<rparr>)"
  by (simp add: getitem_def)

lemma getitem_entry: "map_of (events (snd (getitem k st))) k = Some (fst (getitem k st))"
  by (cases "map_of (events st) k") (simp_all add: getitem_def map_add_def)

lemma getitem_deref: "deref (snd (getitem k st)) (fst (getitem k st)) = subscribers k st"
proof (cases "map_of (events st) k")
  case None
  then show ?thesis
    by (simp add: getitem_unseen subscribers_None deref_def map_add_def map_of_fresh)
next
  case (Some r)
  then show ?thesis by (simp add: getitem_seen subscribers_Some)
qed

lemma getitem_world [simp]: "world (snd (getitem k st)) = world st"
  by (simp add: getitem_def split: option.splits)

lemma getitem_other_entry:
  "k' \<noteq> k \<Longrightarrow> map_of (events (snd (getitem k st))) k' = map_of (events st) k'"
  by (simp add: getitem_def map_add_def split: option.splits)

lemma getitem_deref_old: "r \<noteq> fresh st \<Longrightarrow> deref (snd (getitem k st)) r = deref st r"
  by (auto simp: getitem_def deref_def map_add_def split: option.splits)

lemma stored_getitem:
  "stored k' (snd (getitem k st)) = (if k' = k then Some (subscribers k st) else stored k' st)"
proof (cases "k' = k")
  case True
  then show ?thesis by (simp add: stored_def getitem_entry getitem_deref)
next
  case False
  show ?thesis
  proof (cases "map_of (events st) k'")
    case None
    with False show ?thesis by (simp add: stored_def getitem_other_entry)
  next
    case (Some r)
    with False show ?thesis
      by (simp add: stored_def getitem_other_entry getitem_deref_old map_of_events_ref)
  qed
qed

lemma subscribers_getitem [simp]: "subscribers k' (snd (getitem k st)) = subscribers k' st"
  by (simp add: subscribers_def stored_getitem)

lemma getitem_getitem: "getitem k (snd (getitem k st)) = (fst (getitem k st), snd (getitem k st))"
  using getitem_entry[of k st] by (simp add: getitem_seen)

subsection \<open>Steps of a generator\<close>

declare emit_loop.simps [simp del]
declare emit_only_loop.simps [simp del]
declare remove_loop.simps [simp del]

lemma gen_next_Created:
  "gen_next (Created e) st
     = gen_next (Suspended (fst (getitem e st)) (length (subscribers e st)) 0) (snd (getitem e st))"
  using getitem_deref[of e st] by (cases "getitem e st") simp

lemma gen_next_yield:
  "deref st r = xs \<Longrightarrow> pos < length xs \<Longrightarrow>
   gen_next (Suspended r (length xs) pos) st
     = (Inr (Some (xs ! pos)), Suspended r (length xs) (Suc pos), st)"
  by (simp add: setiter_next_def)

lemma gen_next_stop:
  "deref st r = xs \<Longrightarrow> gen_next (Suspended r (length xs) (length xs)) st = (Inr None, Finished, st)"
  by (simp add: setiter_next_def)

lemma gen_next_resized:
  "length (deref st r) \<noteq> used \<Longrightarrow>
   gen_next (Suspended r used pos) st = (Inl RuntimeError, Finished, st)"
  by (simp add: setiter_next_def)

declare gen_next.simps [simp del]

subsection \<open>The loop of \<^verbatim>\<open>emit\<close>\<close>

lemma emit_loop_Created:
  "emit_loop F (Created e) a k st
     = emit_loop F (Suspended (fst (getitem e st)) (length (subscribers e st)) 0) a k
         (snd (getitem e st))"
  by (subst emit_loop.simps, subst (2) emit_loop.simps) (simp only: gen_next_Created)

lemma emit_unfold:
  "emit F e a k st
     = emit_loop F (Suspended (fst (getitem e st)) (length (subscribers e st)) 0) a k
         (snd (getitem e st))"
  by (simp add: emit_def event_funcs_def emit_loop_Created)

lemma emit_loop_stop:
  "deref st r = xs \<Longrightarrow> emit_loop F (Suspended r (length xs) (length xs)) a k st = (Inr (), st, [])"
  by (subst emit_loop.simps) (simp add: gen_next_stop)

text \<open>A set whose size is no longer the one it had when the iteration began makes the loop
  raise \<^verbatim>\<open>RuntimeError\<close>, before any further call.\<close>

lemma emit_loop_resized:
  "length (deref st r) \<noteq> used \<Longrightarrow>
   emit_loop F (Suspended r used pos) a k st = (Inl RuntimeError, st, [])"
  by (subst emit_loop.simps) (simp add: gen_next_resized)

lemma emit_loop_step:
  assumes "deref st r = xs" and "pos < length xs"
  shows "emit_loop F (Suspended r (length xs) pos) a k st =
           (case call F (xs ! pos) a k st of
              (Inl x, st2, c) \<Rightarrow> (Inl x, st2, [c])
            | (Inr v, st2, c) \<Rightarrow>
                (case emit_loop F (Suspended r (length xs) (Suc pos)) a k st2 of
                   (res, st3, cs) \<Rightarrow> (res, st3, c # cs)))"
  by (subst emit_loop.simps) (simp add: gen_next_yield[OF assms])

lemma run_facts:
  "run F r funcs a k st = Some (st2, cs) \<Longrightarrow>
     deref st2 r = deref st r \<and> map callee cs = funcs \<and>
     (\<forall>c\<in>set cs. given_args c = a \<and> given_kwargs c = k \<and> (\<exists>v. outcome c = Inr v))"
proof (induction funcs arbitrary: st cs)
  case Nil
  then show ?case by simp
next
  case (Cons i funcs)
  from Cons.prems obtain v st' c cs' where
    c: "call F i a k st = (Inr v, st', c)" and d: "deref st' r = deref st r" and
    r: "run F r funcs a k st' = Some (st2, cs')" and cs: "cs = c # cs'"
    by (auto split: prod.splits sum.splits if_splits option.splits)
  from c have "callee c = i" "given_args c = a" "given_kwargs c = k" "outcome c = Inr v"
    by (auto simp: call_def split: prod.splits)
  with Cons.IH[OF r] d cs show ?case by auto
qed

lemma emit_loop_run:
  assumes "deref st r = done @ pre @ rest" and "run F r pre a k st = Some (st2, cs)"
  shows "emit_loop F (Suspended r (length (done @ pre @ rest)) (length done)) a k st =
           (case emit_loop F (Suspended r (length (done @ pre @ rest)) (length done + length pre))
                   a k st2 of
              (res, st3, cs') \<Rightarrow> (res, st3, cs @ cs'))"
  using assms
proof (induction pre arbitrary: "done" st cs)
  case Nil
  then show ?case by (simp split: prod.splits)
next
  case (Cons i pre)
  from Cons.prems(2) obtain v st' c cs' where
    c: "call F i a k st = (Inr v, st', c)" and d: "deref st' r = deref st r" and
    r: "run F r pre a k st' = Some (st2, cs')" and cs: "cs = c # cs'"
    by (auto split: prod.splits sum.splits if_splits option.splits)
  have p: "length done < length (done @ (i # pre) @ rest)" by simp
  have n: "(done @ (i # pre) @ rest) ! length done = i" by simp
  have d': "deref st' r = (done @ [i]) @ pre @ rest" using d Cons.prems(1) by simp
  have "emit_loop F (Suspended r (length (done @ (i # pre) @ rest)) (length done)) a k st =
          (case emit_loop F (Suspended r (length (done @ (i # pre) @ rest)) (Suc (length done)))
                  a k st' of
             (res, st3, cs) \<Rightarrow> (res, st3, c # cs))"
    using emit_loop_step[OF Cons.prems(1) p, of F a k] c n by simp
  also have "emit_loop F (Suspended r (length (done @ (i # pre) @ rest)) (Suc (length done))) a k st'
      = (case emit_loop F (Suspended r (length (done @ (i # pre) @ rest))
                             (Suc (length done) + length pre)) a k st2 of
           (res, st3, cs'') \<Rightarrow> (res, st3, cs' @ cs''))"
    using Cons.IH[OF d' r] by simp
  finally show ?case using cs by (simp split: prod.splits)
qed

lemma emit_run:
  assumes "run F (fst (getitem e st)) (subscribers e st) a k (snd (getitem e st)) = Some (st2, cs)"
  shows "emit F e a k st = (Inr (), st2, cs)"
proof -
  let ?r = "fst (getitem e st)" and ?st1 = "snd (getitem e st)" and ?xs = "subscribers e st"
  have d: "deref ?st1 ?r = [] @ ?xs @ []" by (simp add: getitem_deref)
  have d2: "deref st2 ?r = ?xs" using run_facts[OF assms] by (simp add: getitem_deref)
  from emit_loop_run[OF d assms] emit_loop_stop[OF d2, of F a k]
  show ?thesis by (simp add: emit_unfold)
qed

lemma emit_run_raise:
  assumes "subscribers e st = pre @ i # post"
    and "run F (fst (getitem e st)) pre a k (snd (getitem e st)) = Some (st2, cs)"
    and "call F i a k st2 = (Inl x, st3, c)"
  shows "emit F e a k st = (Inl x, st3, cs @ [c])"
proof -
  let ?r = "fst (getitem e st)" and ?st1 = "snd (getitem e st)"
  have d: "deref ?st1 ?r = [] @ pre @ (i # post)" using assms(1) by (simp add: getitem_deref)
  have d2: "deref st2 ?r = pre @ i # post"
    using run_facts[OF assms(2)] assms(1) by (simp add: getitem_deref)
  have p: "length pre < length (pre @ i # post)" by simp
  have "emit_loop F (Suspended ?r (length (pre @ i # post)) (length pre)) a k st2 = (Inl x, st3, [c])"
    using emit_loop_step[OF d2 p, of F a k] assms(3) by simp
  with emit_loop_run[OF d assms(2)] show ?thesis by (simp add: emit_unfold assms(1))
qed

text \<open>In every run of the loop, each call but the last made returned, and if the last call
  raised, the loop raises the same exception.\<close>

lemma emit_loop_shape:
  "emit_loop F g a k st = (res, st', cs) \<Longrightarrow>
     (\<forall>n. Suc n < length cs \<longrightarrow> (\<exists>v. outcome (cs ! n) = Inr v)) \<and>
     (\<forall>x. cs \<noteq> [] \<longrightarrow> outcome (last cs) = Inl x \<longrightarrow> res = Inl x) \<and>
     (\<forall>c\<in>set cs. given_args c = a \<and> given_kwargs c = k)"
proof (induction F g a k st arbitrary: res st' cs rule: emit_loop.induct)
  case (1 F g a k st)
  obtain y g' st1 where n: "gen_next g st = (y, g', st1)" by (metis prod.collapse)
  show ?case
  proof (cases y)
    case (Inl err)
    with n "1.prems" have "cs = []" by (subst (asm) emit_loop.simps) simp
    then show ?thesis by simp
  next
    case (Inr o1)
    show ?thesis
    proof (cases o1)
      case None
      with n Inr "1.prems" have "cs = []" by (subst (asm) emit_loop.simps) simp
      then show ?thesis by simp
    next
      case (Some i)
      obtain rc st2 c where c: "call F i a k st1 = (rc, st2, c)" by (metis prod.collapse)
      then have oc: "outcome c = rc" "given_args c = a" "given_kwargs c = k"
        by (auto simp: call_def split: prod.splits)
      show ?thesis
      proof (cases rc)
        case (Inl x)
        with n Inr Some c "1.prems" have "cs = [c]" "res = Inl x"
          by (subst (asm) emit_loop.simps, simp)+
        with oc Inl show ?thesis by simp
      next
        case (Inr v)
        obtain res' st3 cs' where l: "emit_loop F g' a k st2 = (res', st3, cs')"
          by (metis prod.collapse)
        with n \<open>y = Inr o1\<close> Some c Inr "1.prems" have e: "cs = c # cs'" "res = res'"
          by (subst (asm) emit_loop.simps, simp)+
        have ih: "(\<forall>n. Suc n < length cs' \<longrightarrow> (\<exists>v. outcome (cs' ! n) = Inr v)) \<and>
             (\<forall>x. cs' \<noteq> [] \<longrightarrow> outcome (last cs') = Inl x \<longrightarrow> res' = Inl x) \<and>
             (\<forall>c\<in>set cs'. given_args c = a \<and> given_kwargs c = k)"
          using "1.IH"[of y "(g', st1)" o1 i g' st1 rc "(st2, c)" v st2 c res' st3 cs']
            n c l \<open>y = Inr o1\<close> Some Inr by simp
        have a: "\<forall>n. Suc n < length cs \<longrightarrow> (\<exists>v. outcome (cs ! n) = Inr v)"
        proof (intro allI impI)
          fix n assume "Suc n < length cs"
          then show "\<exists>v. outcome (cs ! n) = Inr v"
            using e ih oc Inr by (cases n) auto
        qed
        have b: "\<forall>x. cs \<noteq> [] \<longrightarrow> outcome (last cs) = Inl x \<longrightarrow> res = Inl x"
          using e ih oc Inr by (cases cs') auto
        from a b e ih oc show ?thesis by simp
      qed
    qed
  qed
qed

subsection \<open>The loop of \<^verbatim>\<open>emit_only\<close>\<close>

lemma emit_only_loop_Created:
  "emit_only_loop F (Created e) ns a k st
     = emit_only_loop F (Suspended (fst (getitem e st)) (length (subscribers e st)) 0) ns a k
         (snd (getitem e st))"
  by (subst emit_only_loop.simps, subst (2) emit_only_loop.simps) (simp only: gen_next_Created)

lemma emit_only_unfold:
  "emit_only F e ns a k st
     = emit_only_loop F (Suspended (fst (getitem e st)) (length (subscribers e st)) 0)
         (normalize ns) a k (snd (getitem e st))"
  by (simp add: emit_only_def event_funcs_def emit_only_loop_Created)

lemma emit_only_loop_stop:
  "deref st r = xs \<Longrightarrow>
   emit_only_loop F (Suspended r (length xs) (length xs)) ns a k st = (Inr (), st, [])"
  by (subst emit_only_loop.simps) (simp add: gen_next_stop)

lemma emit_only_loop_step:
  assumes "deref st r = xs" and "pos < length xs"
  shows "emit_only_loop F (Suspended r (length xs) pos) ns a k st =
           (case fname (F (xs ! pos)) of
              None \<Rightarrow> (Inl AttributeError, st, [])
            | Some n \<Rightarrow>
                if n \<in> set ns then
                  (case call F (xs ! pos) a k st of
                     (Inl x, st2, c) \<Rightarrow> (Inl x, st2, [c])
                   | (Inr v, st2, c) \<Rightarrow>
                       (case emit_only_loop F (Suspended r (length xs) (Suc pos)) ns a k st2 of
                          (res, st3, cs) \<Rightarrow> (res, st3, c # cs)))
                else emit_only_loop F (Suspended r (length xs) (Suc pos)) ns a k st)"
  by (subst emit_only_loop.simps) (simp add: gen_next_yield[OF assms])

lemma emit_only_loop_run:
  assumes "deref st r = done @ pre @ rest"
    and "\<forall>i\<in>set pre. fname (F i) \<noteq> None"
    and "run F r (filter (named_in F ns) pre) a k st = Some (st2, cs)"
  shows "emit_only_loop F (Suspended r (length (done @ pre @ rest)) (length done)) ns a k st =
           (case emit_only_loop F (Suspended r (length (done @ pre @ rest))
                                     (length done + length pre)) ns a k st2 of
              (res, st3, cs') \<Rightarrow> (res, st3, cs @ cs'))"
  using assms
proof (induction pre arbitrary: "done" st cs)
  case Nil
  then show ?case by (simp split: prod.splits)
next
  case (Cons i pre)
  from Cons.prems(2) obtain n where n: "fname (F i) = Some n" by auto
  have p: "length done < length (done @ (i # pre) @ rest)" by simp
  have x: "(done @ (i # pre) @ rest) ! length done = i" by simp
  have named: "\<forall>i\<in>set pre. fname (F i) \<noteq> None" using Cons.prems(2) by simp
  show ?case
  proof (cases "n \<in> set ns")
    case True
    then have "named_in F ns i" using n by (simp add: named_in_def)
    with Cons.prems(3) obtain v st' c cs' where
      c: "call F i a k st = (Inr v, st', c)" and d: "deref st' r = deref st r" and
      r: "run F r (filter (named_in F ns) pre) a k st' = Some (st2, cs')" and cs: "cs = c # cs'"
      by (auto split: prod.splits sum.splits if_splits option.splits)
    have d': "deref st' r = (done @ [i]) @ pre @ rest" using d Cons.prems(1) by simp
    have "emit_only_loop F (Suspended r (length (done @ (i # pre) @ rest)) (length done)) ns a k st =
          (case emit_only_loop F (Suspended r (length (done @ (i # pre) @ rest))
                                    (Suc (length done))) ns a k st' of
             (res, st3, cs) \<Rightarrow> (res, st3, c # cs))"
      using emit_only_loop_step[OF Cons.prems(1) p, of F ns a k] c n x True by simp
    also have "emit_only_loop F (Suspended r (length (done @ (i # pre) @ rest))
                                   (Suc (length done))) ns a k st'
      = (case emit_only_loop F (Suspended r (length (done @ (i # pre) @ rest))
                                  (Suc (length done) + length pre)) ns a k st2 of
           (res, st3, cs'') \<Rightarrow> (res, st3, cs' @ cs''))"
      using Cons.IH[OF d' named r] by simp
    finally show ?thesis using cs by (simp split: prod.splits)
  next
    case False
    then have "\<not> named_in F ns i" using n by (simp add: named_in_def)
    with Cons.prems(3) have r: "run F r (filter (named_in F ns) pre) a k st = Some (st2, cs)"
      by simp
    have d': "deref st r = (done @ [i]) @ pre @ rest" using Cons.prems(1) by simp
    have "emit_only_loop F (Suspended r (length (done @ (i # pre) @ rest)) (length done)) ns a k st =
          emit_only_loop F (Suspended r (length (done @ (i # pre) @ rest))
                              (Suc (length done))) ns a k st"
      using emit_only_loop_step[OF Cons.prems(1) p, of F ns a k] n x False by simp
    also have "\<dots> = (case emit_only_loop F (Suspended r (length (done @ (i # pre) @ rest))
                                  (Suc (length done) + length pre)) ns a k st2 of
           (res, st3, cs'') \<Rightarrow> (res, st3, cs @ cs''))"
      using Cons.IH[OF d' named r] by simp
    finally show ?thesis by simp
  qed
qed

lemma emit_only_run:
  assumes "\<forall>i\<in>set (subscribers e st). fname (F i) \<noteq> None"
    and "run F (fst (getitem e st)) (filter (named_in F (normalize ns)) (subscribers e st)) a k
           (snd (getitem e st)) = Some (st2, cs)"
  shows "emit_only F e ns a k st = (Inr (), st2, cs)"
proof -
  let ?r = "fst (getitem e st)" and ?st1 = "snd (getitem e st)" and ?xs = "subscribers e st"
  have d: "deref ?st1 ?r = [] @ ?xs @ []" by (simp add: getitem_deref)
  have d2: "deref st2 ?r = ?xs" using run_facts[OF assms(2)] by (simp add: getitem_deref)
  from emit_only_loop_run[OF d assms(1) assms(2)]
       emit_only_loop_stop[OF d2, of F "normalize ns" a k]
  show ?thesis by (simp add: emit_only_unfold)
qed

text \<open>In every run of the loop, every call made is of a callable whose name is among those
  given, with the arguments given.\<close>

lemma emit_only_loop_calls:
  "emit_only_loop F g ns a k st = (res, st', cs) \<Longrightarrow>
     \<forall>c\<in>set cs. named_in F ns (callee c) \<and> given_args c = a \<and> given_kwargs c = k"
proof (induction F g ns a k st arbitrary: res st' cs rule: emit_only_loop.induct)
  case (1 F g ns a k st)
  obtain y g' st1 where n: "gen_next g st = (y, g', st1)" by (metis prod.collapse)
  show ?case
  proof (cases y)
    case (Inl err)
    with n "1.prems" have "cs = []" by (subst (asm) emit_only_loop.simps) simp
    then show ?thesis by simp
  next
    case (Inr o1)
    show ?thesis
    proof (cases o1)
      case None
      with n Inr "1.prems" have "cs = []" by (subst (asm) emit_only_loop.simps) simp
      then show ?thesis by simp
    next
      case (Some i)
      show ?thesis
      proof (cases "fname (F i)")
        case None
        with n Inr Some "1.prems" have "cs = []" by (subst (asm) emit_only_loop.simps) simp
        then show ?thesis by simp
      next
        case (Some nm)
        note nm = this
        show ?thesis
        proof (cases "nm \<in> set ns")
          case False
          with n Inr \<open>o1 = Some i\<close> nm "1.prems"
          have l: "emit_only_loop F g' ns a k st1 = (res, st', cs)"
            by (subst (asm) emit_only_loop.simps) simp
          show ?thesis
            using "1.IH"(2)[of y "(g', st1)" o1 i g' st1 nm res st' cs]
              n Inr \<open>o1 = Some i\<close> nm False l by simp
        next
          case True
          obtain rc st2 c where c: "call F i a k st1 = (rc, st2, c)" by (metis prod.collapse)
          then have oc: "callee c = i" "given_args c = a" "given_kwargs c = k"
            by (auto simp: call_def split: prod.splits)
          have ni: "named_in F ns i" using nm True by (simp add: named_in_def)
          show ?thesis
          proof (cases rc)
            case (Inl x)
            with n \<open>y = Inr o1\<close> \<open>o1 = Some i\<close> nm True c "1.prems" have "cs = [c]"
              by (subst (asm) emit_only_loop.simps) simp
            with oc ni show ?thesis by simp
          next
            case (Inr v)
            obtain res' st3 cs' where l: "emit_only_loop F g' ns a k st2 = (res', st3, cs')"
              by (metis prod.collapse)
            with n \<open>y = Inr o1\<close> \<open>o1 = Some i\<close> nm True c Inr "1.prems" have e: "cs = c # cs'"
              by (subst (asm) emit_only_loop.simps) simp
            have "\<forall>c\<in>set cs'. named_in F ns (callee c) \<and> given_args c = a \<and> given_kwargs c = k"
              using "1.IH"(1)[of y "(g', st1)" o1 i g' st1 nm rc "(st2, c)" v st2 c res' st3 cs']
                n \<open>y = Inr o1\<close> \<open>o1 = Some i\<close> nm True c Inr l by simp
            with e oc ni show ?thesis by simp
          qed
        qed
      qed
    qed
  qed
qed

subsection \<open>The loop of \<^verbatim>\<open>remove_subscriber\<close>\<close>

lemma remove_loop_Created:
  "remove_loop F (Created e) n c st
     = remove_loop F (Suspended (fst (getitem e st)) (length (subscribers e st)) 0) n c
         (snd (getitem e st))"
  by (subst remove_loop.simps, subst (2) remove_loop.simps) (simp only: gen_next_Created)

lemma remove_loop_stop:
  "deref st r = xs \<Longrightarrow> remove_loop F (Suspended r (length xs) (length xs)) n c st = (Inr (), st)"
  by (subst remove_loop.simps) (simp add: gen_next_stop)

lemma remove_loop_step:
  assumes "deref st r = xs" and "pos < length xs"
  shows "remove_loop F (Suspended r (length xs) pos) n c st =
           (case fname (F (xs ! pos)) of
              None \<Rightarrow> (Inl AttributeError, st)
            | Some m \<Rightarrow>
                if m = n then
                  (case set_remove (xs ! pos) c st of
                     (Inl err, st2) \<Rightarrow> (Inl err, st2)
                   | (Inr u, st2) \<Rightarrow> remove_loop F (Suspended r (length xs) (Suc pos)) n c st2)
                else remove_loop F (Suspended r (length xs) (Suc pos)) n c st)"
  by (subst remove_loop.simps) (simp add: gen_next_yield[OF assms])

lemma gen_next_started:
  "gen_next g st = (y, g', st1) \<Longrightarrow> \<forall>e. g \<noteq> Created e \<Longrightarrow> st1 = st \<and> (\<forall>e. g' \<noteq> Created e)"
  by (cases g) (auto simp: gen_next.simps setiter_next_def split: if_splits)

lemma set_remove_frame:
  "set_remove i c st = (y, st2) \<Longrightarrow>
     events st2 = events st \<and> world st2 = world st \<and> (\<forall>r. r \<noteq> c \<longrightarrow> deref st2 r = deref st r)"
  by (auto simp: set_remove_def deref_heap_setitem split: if_splits)

text \<open>Once its generator has started, the loop touches nothing but the copy.\<close>

lemma remove_loop_frame:
  "remove_loop F g n c st = (res, st') \<Longrightarrow> \<forall>e. g \<noteq> Created e \<Longrightarrow>
     events st' = events st \<and> world st' = world st \<and> (\<forall>r. r \<noteq> c \<longrightarrow> deref st' r = deref st r)"
proof (induction F g n c st arbitrary: res st' rule: remove_loop.induct)
  case (1 F g n c st)
  obtain y g' st1 where g: "gen_next g st = (y, g', st1)" by (metis prod.collapse)
  from gen_next_started[OF g "1.prems"(2)] have s: "st1 = st" and g': "\<forall>e. g' \<noteq> Created e"
    by simp_all
  show ?case
  proof (cases y)
    case (Inl err)
    with g s "1.prems"(1) have "st' = st" by (subst (asm) remove_loop.simps) simp
    then show ?thesis by simp
  next
    case (Inr o1)
    show ?thesis
    proof (cases o1)
      case None
      with g s Inr "1.prems"(1) have "st' = st" by (subst (asm) remove_loop.simps) simp
      then show ?thesis by simp
    next
      case (Some i)
      show ?thesis
      proof (cases "fname (F i)")
        case None
        with g s Inr Some "1.prems"(1) have "st' = st" by (subst (asm) remove_loop.simps) simp
        then show ?thesis by simp
      next
        case (Some m)
        note m = this
        show ?thesis
        proof (cases "m = n")
          case False
          with g Inr \<open>o1 = Some i\<close> m "1.prems"(1)
          have l: "remove_loop F g' n c st1 = (res, st')"
            by (subst (asm) remove_loop.simps) simp
          show ?thesis
            using "1.IH"(2)[of y "(g', st1)" o1 i g' st1 m res st']
              g Inr \<open>o1 = Some i\<close> m False l g' s by simp
        next
          case True
          obtain rr st2 where r: "set_remove i c st1 = (rr, st2)" by (metis prod.collapse)
          note f = set_remove_frame[OF r]
          show ?thesis
          proof (cases rr)
            case (Inl err)
            with g \<open>y = Inr o1\<close> \<open>o1 = Some i\<close> m True r "1.prems"(1) have "st' = st2"
              by (subst (asm) remove_loop.simps) simp
            with f s show ?thesis by simp
          next
            case (Inr u)
            with g \<open>y = Inr o1\<close> \<open>o1 = Some i\<close> m True r "1.prems"(1)
            have l: "remove_loop F g' n c st2 = (res, st')"
              by (subst (asm) remove_loop.simps) simp
            have "events st' = events st2 \<and> world st' = world st2 \<and>
                  (\<forall>r. r \<noteq> c \<longrightarrow> deref st' r = deref st2 r)"
              using "1.IH"(1)[of y "(g', st1)" o1 i g' st1 m rr st2 u res st']
                g \<open>y = Inr o1\<close> \<open>o1 = Some i\<close> m True r Inr l g' by simp
            with f s show ?thesis by simp
          qed
        qed
      qed
    qed
  qed
qed

text \<open>Over a set of named callables without repetition, the loop raises nothing and leaves
  in the copy the members whose name is not the one given.\<close>

lemma remove_loop_run:
  assumes "deref st r = done @ todo" and "distinct (done @ todo)"
    and "\<forall>i\<in>set todo. fname (F i) \<noteq> None" and "c \<noteq> r"
    and "deref st c = filter (\<lambda>i. fname (F i) \<noteq> Some n) done @ todo"
  shows "\<exists>st'. remove_loop F (Suspended r (length (done @ todo)) (length done)) n c st = (Inr (), st')
           \<and> deref st' c = filter (\<lambda>i. fname (F i) \<noteq> Some n) (done @ todo)"
  using assms
proof (induction todo arbitrary: "done" st)
  case Nil
  then show ?case using remove_loop_stop[of st r "done" F n c] by simp
next
  case (Cons i todo)
  let ?keep = "\<lambda>i. fname (F i) \<noteq> Some n"
  from Cons.prems(3) obtain m where m: "fname (F i) = Some m" by auto
  have p: "length done < length (done @ i # todo)" by simp
  have x: "(done @ i # todo) ! length done = i" by simp
  have dist: "distinct ((done @ [i]) @ todo)" using Cons.prems(2) by simp
  have named: "\<forall>i\<in>set todo. fname (F i) \<noteq> None" using Cons.prems(3) by simp
  show ?case
  proof (cases "m = n")
    case False
    then have k: "?keep i" using m by simp
    have d: "deref st r = (done @ [i]) @ todo" using Cons.prems(1) by simp
    have dc: "deref st c = filter ?keep (done @ [i]) @ todo" using Cons.prems(5) k by simp
    have "remove_loop F (Suspended r (length (done @ i # todo)) (length done)) n c st
          = remove_loop F (Suspended r (length (done @ i # todo)) (Suc (length done))) n c st"
      using remove_loop_step[OF Cons.prems(1) p, of F n c] m x False by simp
    with Cons.IH[OF d dist named Cons.prems(4) dc] show ?thesis by simp
  next
    case True
    then have k: "\<not> ?keep i" using m by simp
    have mem: "i \<in> set (deref st c)" using Cons.prems(5) by simp
    have "i \<notin> set (filter ?keep done)" using Cons.prems(2) by auto
    then have rm: "remove1 i (filter ?keep done @ i # todo) = filter ?keep done @ todo"
      by (simp add: remove1_append)
    let ?st2 = "st\<lparr>heap := setitem c (filter ?keep done @ todo) (heap st)\<rparr>"
    have sr: "set_remove i c st = (Inr (), ?st2)"
      using mem rm Cons.prems(5) by (simp add: set_remove_def)
    have d: "deref ?st2 r = (done @ [i]) @ todo"
      using Cons.prems(1,4) by (simp add: deref_heap_setitem)
    have dc: "deref ?st2 c = filter ?keep (done @ [i]) @ todo"
      using k by (simp add: deref_heap_setitem)
    have "remove_loop F (Suspended r (length (done @ i # todo)) (length done)) n c st
          = remove_loop F (Suspended r (length (done @ i # todo)) (Suc (length done))) n c ?st2"
      using remove_loop_step[OF Cons.prems(1) p, of F n c] m x True sr by simp
    with Cons.IH[OF d dist named Cons.prems(4) dc] show ?thesis by simp
  qed
qed

subsection \<open>\<^verbatim>\<open>remove_subscriber\<close> as a whole\<close>

lemma set_copy_facts:
  "fst (set_copy r st) = fresh st \<and> events (snd (set_copy r st)) = events st \<and>
   world (snd (set_copy r st)) = world st \<and>
   deref (snd (set_copy r st)) r' = (if r' = fresh st then deref st r else deref st r')"
  by (simp add: set_copy_def deref_heap_append)

text \<open>The states on the way: after the lookup, after the copy, and the loop that starts
  there.\<close>

lemma remove_subscriber_unfold:
  "remove_subscriber F e n st =
     (case remove_loop F (Suspended (fst (getitem e st)) (length (subscribers e st)) 0) n
             (fresh (snd (getitem e st))) (snd (set_copy (fst (getitem e st)) (snd (getitem e st)))) of
        (Inl err, st4) \<Rightarrow> (Inl err, st4)
      | (Inr u, st4) \<Rightarrow>
          (Inr (), st4\<lparr>events := setitem e (fresh (snd (getitem e st))) (events st4)\<rparr>))"
proof -
  obtain r st1 where g1: "getitem e st = (r, st1)" by (cases "getitem e st")
  obtain c st2 where sc: "set_copy r st1 = (c, st2)" by (cases "set_copy r st1")
  from g1 have r: "r = fst (getitem e st)" and st1: "st1 = snd (getitem e st)" by simp_all
  from sc have c: "c = fresh st1" and st2: "st2 = snd (set_copy r st1)"
    by (auto simp: set_copy_def)
  have ev: "map_of (events st2) e = Some r"
    using getitem_entry[of e st] by (simp add: st2 set_copy_facts r st1)
  then have g: "getitem e st2 = (r, st2)" by (rule getitem_seen)
  have "r \<noteq> fresh st1" using getitem_entry[of e st] unfolding r st1 by (rule map_of_events_ref)
  then have "deref st2 r = subscribers e st"
    using getitem_deref[of e st] by (simp add: st2 set_copy_facts r st1)
  with ev have s: "subscribers e st2 = subscribers e st" by (simp add: subscribers_Some)
  have "remove_loop F (Created e) n c st2
        = remove_loop F (Suspended r (length (subscribers e st)) 0) n c st2"
    using g s by (simp add: remove_loop_Created)
  then have "remove_subscriber F e n st =
     (case remove_loop F (Suspended r (length (subscribers e st)) 0) n c st2 of
        (Inl err, st4) \<Rightarrow> (Inl err, st4)
      | (Inr u, st4) \<Rightarrow> (Inr (), st4\<lparr>events := setitem e c (events st4)\<rparr>))"
    using g1 sc by (simp add: remove_subscriber_def event_funcs_def)
  then show ?thesis unfolding c st2 r st1 .
qed

lemma stored_cong:
  "map_of (events st') k = map_of (events st) k \<Longrightarrow>
   (\<And>r. map_of (events st) k = Some r \<Longrightarrow> deref st' r = deref st r) \<Longrightarrow>
   stored k st' = stored k st"
  by (cases "map_of (events st) k") (simp_all add: stored_def)

text \<open>On every path, also the raising ones, what is stored under another event name stays.\<close>

lemma remove_subscriber_other:
  assumes "e' \<noteq> e"
  shows "stored e' (snd (remove_subscriber F e n st)) = stored e' st"
proof -
  let ?r = "fst (getitem e st)" and ?st1 = "snd (getitem e st)"
  let ?c = "fresh ?st1" and ?st2 = "snd (set_copy ?r ?st1)"
  obtain res st4 where
    l: "remove_loop F (Suspended ?r (length (subscribers e st)) 0) n ?c ?st2 = (res, st4)"
    by (metis prod.collapse)
  from remove_loop_frame[OF l] have
    f: "events st4 = events ?st2" "\<And>r. r \<noteq> ?c \<Longrightarrow> deref st4 r = deref ?st2 r"
    by simp_all
  let ?st' = "snd (remove_subscriber F e n st)"
  have ev: "map_of (events ?st') e' = map_of (events ?st1) e'"
    using l f(1) assms
    by (cases res) (simp_all add: remove_subscriber_unfold set_copy_facts map_of_setitem)
  have dr: "deref ?st' r = deref ?st1 r" if "map_of (events ?st1) e' = Some r" for r
  proof -
    from that have "r \<noteq> ?c" by (rule map_of_events_ref)
    then have "deref st4 r = deref ?st1 r" using f(2) by (simp add: set_copy_facts)
    then show ?thesis using l by (cases res) (simp_all add: remove_subscriber_unfold)
  qed
  have "stored e' ?st' = stored e' ?st1" using ev dr by (rule stored_cong)
  then show ?thesis using assms by (simp add: stored_getitem)
qed

lemma wf_deref: "wf_state st \<Longrightarrow> distinct (deref st r)"
  by (auto simp: wf_state_def deref_def split: option.splits dest!: map_of_SomeD)

text \<open>Where the members of the set have no repetition and all have a name, the method
  raises nothing and stores the members whose name is not the one given.\<close>

lemma remove_subscriber_named:
  assumes "wf_state st" and "\<forall>i\<in>set (subscribers e st). fname (F i) \<noteq> None"
  shows "\<exists>st'. remove_subscriber F e n st = (Inr (), st') \<and>
           events st' = setitem e (fresh (snd (getitem e st))) (events (snd (getitem e st))) \<and>
           deref st' (fresh (snd (getitem e st)))
             = filter (\<lambda>i. fname (F i) \<noteq> Some n) (subscribers e st) \<and>
           (\<forall>r. r \<noteq> fresh (snd (getitem e st)) \<longrightarrow> deref st' r = deref (snd (getitem e st)) r) \<and>
           world st' = world st"
proof -
  let ?r = "fst (getitem e st)" and ?st1 = "snd (getitem e st)"
  let ?c = "fresh ?st1" and ?st2 = "snd (set_copy ?r ?st1)"
  let ?xs = "subscribers e st"
  have rc: "?r \<noteq> ?c" using getitem_entry[of e st] by (rule map_of_events_ref)
  then have d: "deref ?st2 ?r = [] @ ?xs" by (simp add: set_copy_facts getitem_deref)
  have dc: "deref ?st2 ?c = filter (\<lambda>i. fname (F i) \<noteq> Some n) [] @ ?xs"
    by (simp add: set_copy_facts getitem_deref)
  have "distinct (deref ?st1 ?r)"
  proof (cases "map_of (events st) e")
    case None
    then show ?thesis by (simp add: getitem_deref subscribers_None)
  next
    case (Some r)
    then show ?thesis using wf_deref[OF assms(1), of r] by (simp add: getitem_seen)
  qed
  then have dist: "distinct ([] @ ?xs)" by (simp add: getitem_deref)
  from remove_loop_run[OF d dist assms(2) rc[symmetric] dc] obtain st4 where
    l: "remove_loop F (Suspended ?r (length ?xs) 0) n ?c ?st2 = (Inr (), st4)" and
    k: "deref st4 ?c = filter (\<lambda>i. fname (F i) \<noteq> Some n) ?xs"
    by auto
  from remove_loop_frame[OF l] have
    f: "events st4 = events ?st2" "world st4 = world ?st2"
       "\<And>r. r \<noteq> ?c \<Longrightarrow> deref st4 r = deref ?st2 r"
    by simp_all
  let ?st' = "st4\<lparr>events := setitem e ?c (events st4)\<rparr>"
  have "remove_subscriber F e n st = (Inr (), ?st')"
    using l by (simp add: remove_subscriber_unfold)
  moreover have "events ?st' = setitem e ?c (events ?st1)"
    using f(1) by (simp add: set_copy_facts)
  moreover have "deref ?st' ?c = filter (\<lambda>i. fname (F i) \<noteq> Some n) ?xs" using k by simp
  moreover have "\<forall>r. r \<noteq> ?c \<longrightarrow> deref ?st' r = deref ?st1 r"
    using f(3) by (simp add: set_copy_facts)
  moreover have "world ?st' = world st" using f(2) by (simp add: set_copy_facts)
  ultimately show ?thesis by blast
qed

lemma contents_setitem:
  assumes "map_of d e = Some r" and "deref st' c = deref st r"
    and "\<forall>p\<in>set d. deref st' (snd p) = deref st (snd p)"
  shows "map (\<lambda>p. (fst p, deref st' (snd p))) (setitem e c d) = map (\<lambda>p. (fst p, deref st (snd p))) d"
  using assms by (induction d) (auto split: if_splits)

subsection \<open>The invariant\<close>

lemma wf_heap_setitem:
  "wf_state st \<Longrightarrow> distinct s \<Longrightarrow> wf_state (st\<lparr>heap := setitem r s (heap st)\<rparr>)"
  unfolding wf_state_def using set_setitem_subset[of r s "heap st"] by auto

lemma wf_heap_append:
  "wf_state st \<Longrightarrow> distinct s \<Longrightarrow> wf_state (st\<lparr>heap := heap st @ [(r, s)]\<rparr>)"
  by (auto simp: wf_state_def)

lemma wf_getitem: "wf_state st \<Longrightarrow> wf_state (snd (getitem k st))"
  by (auto simp: wf_state_def getitem_def map_of_eq_None_iff split: option.splits)

lemma wf_set_add: "wf_state st \<Longrightarrow> wf_state (snd (set_add F i r st))"
  using wf_deref[of st r] by (simp add: set_add_def wf_heap_setitem)

lemma wf_set_copy: "wf_state st \<Longrightarrow> wf_state (snd (set_copy r st))"
  using wf_deref[of st r] by (simp add: set_copy_def wf_heap_append)

lemma wf_set_remove: "wf_state st \<Longrightarrow> wf_state (snd (set_remove i r st))"
  using wf_deref[of st r] by (simp add: set_remove_def wf_heap_setitem)

lemma wf_events_setitem:
  "wf_state st \<Longrightarrow> wf_state (st\<lparr>events := setitem k r (events st)\<rparr>)"
  by (simp add: wf_state_def distinct_setitem)

lemma wf_gen_next: "wf_state st \<Longrightarrow> wf_state (snd (snd (gen_next g st)))"
proof (cases g)
  case (Created e)
  assume w: "wf_state st"
  obtain r st1 where g1: "getitem e st = (r, st1)" by (cases "getitem e st")
  with wf_getitem[OF w, of e] have "wf_state st1" by simp
  with g1 Created show ?thesis by (simp add: gen_next.simps split: prod.splits)
qed (simp_all add: gen_next.simps split: prod.splits)

lemma wf_call: "keeps_wf F \<Longrightarrow> wf_state st \<Longrightarrow> wf_state (fst (snd (call F i a k st)))"
  by (simp add: keeps_wf_def call_def split: prod.splits) (metis snd_conv)

lemma wf_emit_loop:
  "keeps_wf F \<Longrightarrow> wf_state st \<Longrightarrow> wf_state (fst (snd (emit_loop F g a k st)))"
proof (induction F g a k st rule: emit_loop.induct)
  case (1 F g a k st)
  obtain y g' st1 where n: "gen_next g st = (y, g', st1)" by (metis prod.collapse)
  with wf_gen_next[OF "1.prems"(2), of g] have w1: "wf_state st1" by simp
  show ?case
  proof (cases y)
    case (Inl err)
    with n w1 show ?thesis by (subst emit_loop.simps) simp
  next
    case (Inr o1)
    show ?thesis
    proof (cases o1)
      case None
      with n Inr w1 show ?thesis by (subst emit_loop.simps) simp
    next
      case (Some i)
      obtain rc st2 c where c: "call F i a k st1 = (rc, st2, c)" by (metis prod.collapse)
      with wf_call[OF "1.prems"(1) w1, of i a k] have w2: "wf_state st2" by simp
      show ?thesis
      proof (cases rc)
        case (Inl x)
        with n Inr Some c w2 show ?thesis by (subst emit_loop.simps) simp
      next
        case (Inr v)
        have "wf_state (fst (snd (emit_loop F g' a k st2)))"
          using "1.IH"[of y "(g', st1)" o1 i g' st1 rc "(st2, c)" v st2 c]
            n c \<open>y = Inr o1\<close> Some Inr "1.prems"(1) w2 by simp
        with n \<open>y = Inr o1\<close> Some c Inr show ?thesis
          by (subst emit_loop.simps) (cases "emit_loop F g' a k st2", simp)
      qed
    qed
  qed
qed

lemma wf_emit_only_loop:
  "keeps_wf F \<Longrightarrow> wf_state st \<Longrightarrow> wf_state (fst (snd (emit_only_loop F g ns a k st)))"
proof (induction F g ns a k st rule: emit_only_loop.induct)
  case (1 F g ns a k st)
  obtain y g' st1 where n: "gen_next g st = (y, g', st1)" by (metis prod.collapse)
  with wf_gen_next[OF "1.prems"(2), of g] have w1: "wf_state st1" by simp
  show ?case
  proof (cases y)
    case (Inl err)
    with n w1 show ?thesis by (subst emit_only_loop.simps) simp
  next
    case (Inr o1)
    show ?thesis
    proof (cases o1)
      case None
      with n Inr w1 show ?thesis by (subst emit_only_loop.simps) simp
    next
      case (Some i)
      show ?thesis
      proof (cases "fname (F i)")
        case None
        with n Inr Some w1 show ?thesis by (subst emit_only_loop.simps) simp
      next
        case (Some nm)
        note nm = this
        show ?thesis
        proof (cases "nm \<in> set ns")
          case False
          have "wf_state (fst (snd (emit_only_loop F g' ns a k st1)))"
            using "1.IH"(2)[of y "(g', st1)" o1 i g' st1 nm]
              n Inr \<open>o1 = Some i\<close> nm False "1.prems"(1) w1 by simp
          with n Inr \<open>o1 = Some i\<close> nm False show ?thesis
            by (subst emit_only_loop.simps) simp
        next
          case True
          obtain rc st2 c where c: "call F i a k st1 = (rc, st2, c)" by (metis prod.collapse)
          with wf_call[OF "1.prems"(1) w1, of i a k] have w2: "wf_state st2" by simp
          show ?thesis
          proof (cases rc)
            case (Inl x)
            with n \<open>y = Inr o1\<close> \<open>o1 = Some i\<close> nm True c w2 show ?thesis
              by (subst emit_only_loop.simps) simp
          next
            case (Inr v)
            have "wf_state (fst (snd (emit_only_loop F g' ns a k st2)))"
              using "1.IH"(1)[of y "(g', st1)" o1 i g' st1 nm rc "(st2, c)" v st2 c]
                n \<open>y = Inr o1\<close> \<open>o1 = Some i\<close> nm True c Inr "1.prems"(1) w2 by simp
            with n \<open>y = Inr o1\<close> \<open>o1 = Some i\<close> nm True c Inr show ?thesis
              by (subst emit_only_loop.simps) (cases "emit_only_loop F g' ns a k st2", simp)
          qed
        qed
      qed
    qed
  qed
qed

lemma wf_remove_loop:
  "wf_state st \<Longrightarrow> wf_state (snd (remove_loop F g n c st))"
proof (induction F g n c st rule: remove_loop.induct)
  case (1 F g n c st)
  obtain y g' st1 where g: "gen_next g st = (y, g', st1)" by (metis prod.collapse)
  with wf_gen_next[OF "1.prems", of g] have w1: "wf_state st1" by simp
  show ?case
  proof (cases y)
    case (Inl err)
    with g w1 show ?thesis by (subst remove_loop.simps) simp
  next
    case (Inr o1)
    show ?thesis
    proof (cases o1)
      case None
      with g Inr w1 show ?thesis by (subst remove_loop.simps) simp
    next
      case (Some i)
      show ?thesis
      proof (cases "fname (F i)")
        case None
        with g Inr Some w1 show ?thesis by (subst remove_loop.simps) simp
      next
        case (Some m)
        note m = this
        show ?thesis
        proof (cases "m = n")
          case False
          have "wf_state (snd (remove_loop F g' n c st1))"
            using "1.IH"(2)[of y "(g', st1)" o1 i g' st1 m]
              g Inr \<open>o1 = Some i\<close> m False w1 by simp
          with g Inr \<open>o1 = Some i\<close> m False show ?thesis
            by (subst remove_loop.simps) simp
        next
          case True
          obtain rr st2 where r: "set_remove i c st1 = (rr, st2)" by (metis prod.collapse)
          with wf_set_remove[OF w1, of i c] have w2: "wf_state st2" by simp
          show ?thesis
          proof (cases rr)
            case (Inl err)
            with g \<open>y = Inr o1\<close> \<open>o1 = Some i\<close> m True r w2 show ?thesis
              by (subst remove_loop.simps) simp
          next
            case (Inr u)
            have "wf_state (snd (remove_loop F g' n c st2))"
              using "1.IH"(1)[of y "(g', st1)" o1 i g' st1 m rr st2 u]
                g \<open>y = Inr o1\<close> \<open>o1 = Some i\<close> m True r Inr w2 by simp
            with g \<open>y = Inr o1\<close> \<open>o1 = Some i\<close> m True r Inr show ?thesis
              by (subst remove_loop.simps) simp
          qed
        qed
      qed
    qed
  qed
qed

lemma wf_on: "wf_state st \<Longrightarrow> wf_state (snd (on F e i st))"
proof -
  assume w: "wf_state st"
  obtain r st1 where g: "getitem e st = (r, st1)" by (cases "getitem e st")
  with wf_getitem[OF w, of e] have "wf_state st1" by simp
  from wf_set_add[OF this, of F i r] g show ?thesis
    by (cases "set_add F i r st1"; cases "fst (set_add F i r st1)") (simp_all add: on_def)
qed

lemma wf_emit: "keeps_wf F \<Longrightarrow> wf_state st \<Longrightarrow> wf_state (fst (snd (emit F e a k st)))"
  by (simp add: emit_def event_funcs_def wf_emit_loop)

lemma wf_emit_only:
  "keeps_wf F \<Longrightarrow> wf_state st \<Longrightarrow> wf_state (fst (snd (emit_only F e ns a k st)))"
  by (simp add: emit_only_def event_funcs_def wf_emit_only_loop)

lemma wf_emit_after:
  assumes "keeps_wf F" and "wf_state st"
  shows "wf_state (fst (snd (emit_after F e g a k st)))"
proof -
  obtain rc st1 c where c: "call F g a k st = (rc, st1, c)" by (metis prod.collapse)
  with wf_call[OF assms, of g a k] have w1: "wf_state st1" by simp
  from wf_emit[OF assms(1) w1, of e "[]" "[]"] c w1 show ?thesis
    by (cases rc) (auto simp: emit_after_def split: prod.splits sum.splits)
qed

lemma event_func_names_unfold:
  "event_func_names F e st = (names_loop F (subscribers e st), snd (getitem e st))"
  using getitem_deref[of e st] by (cases "getitem e st") (simp add: event_func_names_def)

lemma wf_event_func_names: "wf_state st \<Longrightarrow> wf_state (snd (event_func_names F e st))"
  using wf_getitem[of st e] by (simp add: event_func_names_unfold)

lemma wf_remove_subscriber: "wf_state st \<Longrightarrow> wf_state (snd (remove_subscriber F e n st))"
proof -
  assume w: "wf_state st"
  let ?st2 = "snd (set_copy (fst (getitem e st)) (snd (getitem e st)))"
  have "wf_state ?st2" using w by (simp add: wf_getitem wf_set_copy)
  from wf_remove_loop[OF this, of F "Suspended (fst (getitem e st)) (length (subscribers e st)) 0"
        n "fresh (snd (getitem e st))"]
  show ?thesis
    by (cases "remove_loop F (Suspended (fst (getitem e st)) (length (subscribers e st)) 0) n
                 (fresh (snd (getitem e st))) ?st2";
        cases "fst (remove_loop F (Suspended (fst (getitem e st)) (length (subscribers e st)) 0) n
                 (fresh (snd (getitem e st))) ?st2)")
       (simp_all add: remove_subscriber_unfold wf_events_setitem)
qed

text \<open>Every reachable state satisfies the invariant, provided the callables keep it.\<close>

lemma reachable_wf:
  assumes "keeps_wf F" and "reachable F st"
  shows "wf_state st"
  using assms(2)
proof (induction rule: reachable.induct)
  case (init w)
  show ?case by (simp add: wf_state_def EventBus_def)
next
  case (on st event func)
  then show ?case by (simp add: wf_on)
next
  case (emit st event args kwargs)
  then show ?case using assms(1) by (simp add: wf_emit)
next
  case (emit_only st event func_names args kwargs)
  then show ?case using assms(1) by (simp add: wf_emit_only)
next
  case (emit_after st event func args kwargs)
  then show ?case using assms(1) by (simp add: wf_emit_after)
next
  case (event_funcs st name)
  then show ?case by (simp add: event_funcs_def)
next
  case (gen_next st g)
  then show ?case by (simp add: wf_gen_next)
next
  case (event_func_names st name)
  then show ?case by (simp add: wf_event_func_names)
next
  case (remove_subscriber st event func_name)
  then show ?case by (simp add: wf_remove_subscriber)
qed

subsection \<open>The loop of \<^verbatim>\<open>subscribed_event_count\<close>\<close>

lemma count_loop_fresh:
  "distinct (map fst items) \<Longrightarrow> fst ` set c \<inter> fst ` set items = {} \<Longrightarrow>
   count_loop st items c = c @ map (\<lambda>p. (fst p, int (length (deref st (snd p))))) items"
proof (induction items arbitrary: c)
  case Nil
  then show ?case by simp
next
  case (Cons p items)
  obtain key vals where p: "p = (key, vals)" by (cases p)
  have fresh: "key \<notin> fst ` set c" using Cons.prems p by auto
  have "fst ` set (c @ [(key, int (length (deref st vals)))]) \<inter> fst ` set items = {}"
    using Cons.prems p by auto
  moreover have "distinct (map fst items)" using Cons.prems by simp
  ultimately have "count_loop st items (c @ [(key, int (length (deref st vals)))])
      = (c @ [(key, int (length (deref st vals)))])
        @ map (\<lambda>p. (fst p, int (length (deref st (snd p))))) items"
    by (rule Cons.IH[rotated])
  with p fresh show ?case by (simp add: setitem_fresh)
qed

lemma subscribers_unseen: "k \<notin> fst ` set (events st) \<Longrightarrow> subscribers k st = []"
proof -
  assume "k \<notin> fst ` set (events st)"
  then have "map_of (events st) k = None" by (simp add: map_of_eq_None_iff)
  then show ?thesis by (rule subscribers_None)
qed

lemma count_sum:
  assumes "distinct (map fst (events st))" and "finite K" and "fst ` set (events st) \<subseteq> K"
  shows "subscribed_event_count st = (\<Sum>k\<in>K. int (length (subscribers k st)))"
proof -
  have "map (\<lambda>p. int (length (deref st (snd p)))) (events st)
        = map (\<lambda>k. int (length (subscribers k st))) (map fst (events st))"
    using assms(1) by (auto simp: subscribers_Some)
  then have "sum_list (map (\<lambda>p. int (length (deref st (snd p)))) (events st))
        = sum_list (map (\<lambda>k. int (length (subscribers k st))) (map fst (events st)))"
    by (rule arg_cong)
  also have "\<dots> = (\<Sum>k\<in>set (map fst (events st)). int (length (subscribers k st)))"
    using assms(1) by (rule sum_list_distinct_conv_sum_set)
  also have "\<dots> = (\<Sum>k\<in>K. int (length (subscribers k st)))"
    by (rule sum.mono_neutral_left) (use assms in \<open>auto simp: subscribers_unseen\<close>)
  finally show ?thesis
    using assms(1) by (simp add: subscribed_event_count_def count_loop_fresh comp_def)
qed

subsection \<open>\<^verbatim>\<open>on\<close>\<close>

lemma on_hashable:
  assumes "hashable (F i)"
  shows "on F e i st =
           (Inr \<lparr>hashable = True,
                 fname = (case fname (F i) of Some n \<Rightarrow> Some n | None \<Rightarrow> Some ''wrapper''),
                 body = body (F i)\<rparr>,
            if i \<in> set (subscribers e st) then snd (getitem e st)
            else (snd (getitem e st))
                   \<lparr>heap := setitem (fst (getitem e st)) (subscribers e st @ [i])
                              (heap (snd (getitem e st)))\<rparr>)"
proof -
  obtain r st1 where g: "getitem e st = (r, st1)" by (cases "getitem e st")
  with getitem_deref[of e st] have "deref st1 r = subscribers e st" by simp
  with g assms show ?thesis by (simp add: on_def set_add_def)
qed

lemma on_unhashable:
  assumes "\<not> hashable (F i)"
  shows "on F e i st = (Inl TypeError, snd (getitem e st))"
proof -
  obtain r st1 where g: "getitem e st = (r, st1)" by (cases "getitem e st")
  with assms show ?thesis by (simp add: on_def set_add_def)
qed

lemma subscribers_on:
  assumes "hashable (F i)"
  shows "subscribers e (snd (on F e i st))
           = (if i \<in> set (subscribers e st) then subscribers e st else subscribers e st @ [i])"
proof -
  have "map_of (events (snd (on F e i st))) e = Some (fst (getitem e st))"
    using assms by (simp add: on_hashable getitem_entry)
  then have "subscribers e (snd (on F e i st)) = deref (snd (on F e i st)) (fst (getitem e st))"
    by (rule subscribers_Some)
  then show ?thesis using assms by (simp add: on_hashable deref_heap_setitem getitem_deref)
qed

lemma on_on_same: "snd (on F e i (snd (on F e i st))) = snd (on F e i st)"
proof (cases "hashable (F i)")
  case False
  then show ?thesis by (simp add: on_unhashable getitem_getitem)
next
  case True
  let ?st' = "snd (on F e i st)"
  have ev: "map_of (events ?st') e = Some (fst (getitem e st))"
    using True by (simp add: on_hashable getitem_entry)
  then have g: "getitem e ?st' = (fst (getitem e st), ?st')" by (rule getitem_seen)
  have "i \<in> set (subscribers e ?st')" using True by (simp add: subscribers_on)
  with g True show ?thesis by (simp add: on_hashable[of F i e ?st'])
qed

lemma count_member:
  "distinct s \<Longrightarrow> i \<in> set s \<Longrightarrow> length (filter (\<lambda>j. j = i) s) = 1"
  by (induction s) (auto simp: filter_empty_conv)

lemma wf_subscribers: "wf_state st \<Longrightarrow> distinct (subscribers e st)"
  by (cases "map_of (events st) e") (simp_all add: subscribers_None subscribers_Some wf_deref)

subsection \<open>The contents after a replacement\<close>

lemma contents_replaced:
  assumes "events st' = setitem e c (events st1)" and "map_of (events st1) e = Some r"
    and "deref st' c = deref st1 r" and "\<forall>r'. r' \<noteq> c \<longrightarrow> deref st' r' = deref st1 r'"
    and "c \<notin> snd ` set (events st1)"
  shows "contents st' = contents st1"
proof -
  have "\<forall>p\<in>set (events st1). deref st' (snd p) = deref st1 (snd p)"
    using assms(4,5) by (metis image_eqI)
  with contents_setitem[OF assms(2,3)] show ?thesis
    by (simp add: contents_def assms(1))
qed

text \<open>Where no member is removed, \<^verbatim>\<open>remove_subscriber\<close> leaves the contents as the lookup
  of the event leaves them.\<close>

lemma remove_subscriber_contents:
  assumes "remove_subscriber F e n st = (Inr (), st')"
    and "events st' = setitem e (fresh (snd (getitem e st))) (events (snd (getitem e st)))"
    and "deref st' (fresh (snd (getitem e st))) = subscribers e st"
    and "\<forall>r. r \<noteq> fresh (snd (getitem e st)) \<longrightarrow> deref st' r = deref (snd (getitem e st)) r"
  shows "contents st' = contents (snd (getitem e st))"
proof -
  let ?st1 = "snd (getitem e st)"
  have d: "deref st' (fresh ?st1) = deref ?st1 (fst (getitem e st))"
    using assms(3) by (simp add: getitem_deref)
  show ?thesis
    using assms(2) getitem_entry[of e st] d assms(4) fresh_not_in_events[of ?st1]
    by (rule contents_replaced)
qed

lemma remove_subscriber_empty:
  assumes "subscribers e st = []"
  shows "\<exists>st'. remove_subscriber F e n st = (Inr (), st') \<and>
           contents st' = contents (snd (getitem e st)) \<and> world st' = world st"
proof -
  let ?r = "fst (getitem e st)" and ?st1 = "snd (getitem e st)"
  let ?c = "fresh ?st1" and ?st2 = "snd (set_copy ?r ?st1)"
  have rc: "?r \<noteq> ?c" using getitem_entry[of e st] by (rule map_of_events_ref)
  then have d: "deref ?st2 ?r = []" using assms by (simp add: set_copy_facts getitem_deref)
  from remove_loop_stop[OF d, of F n ?c] assms
  have l: "remove_loop F (Suspended ?r (length (subscribers e st)) 0) n ?c ?st2 = (Inr (), ?st2)"
    by simp
  let ?st' = "?st2\<lparr>events := setitem e ?c (events ?st2)\<rparr>"
  have r: "remove_subscriber F e n st = (Inr (), ?st')"
    using l by (simp add: remove_subscriber_unfold)
  have "contents ?st' = contents ?st1"
    using r
  proof (rule remove_subscriber_contents)
    show "events ?st' = setitem e ?c (events ?st1)" by (simp add: set_copy_facts)
    show "deref ?st' ?c = subscribers e st" by (simp add: set_copy_facts getitem_deref)
    show "\<forall>r. r \<noteq> ?c \<longrightarrow> deref ?st' r = deref ?st1 r" by (simp add: set_copy_facts)
  qed
  moreover have "world ?st' = world st" by (simp add: set_copy_facts)
  ultimately show ?thesis using r by blast
qed

subsection \<open>The scenario, evaluated\<close>

lemmas scenario_defs =
  objs_def objs1_def inc_def logger_def boom_def bang_def answer_def partial_obj_def
  unhashable_obj_def meddler_def

lemmas eval_defs =
  s0_def EventBus_def on_def getitem_def set_add_def deref_def fresh_def subscribers_def stored_def

lemma tick_state_eq: "tick_state = \<lparr>events = [(''tick'', 1)], heap = [(1, [1, 2])], world = 0\<rparr>"
  by (simp add: tick_state_def eval_defs scenario_defs)

lemma mixed_state_eq:
  "mixed_state = \<lparr>events = [(''tick'', 1)], heap = [(1, [1, 3, 2])], world = 0\<rparr>"
  by (simp add: mixed_state_def eval_defs scenario_defs)

lemma boom_state_eq: "boom_state = \<lparr>events = [(''tick'', 1)], heap = [(1, [3, 1])], world = 0\<rparr>"
  by (simp add: boom_state_def eval_defs scenario_defs)

lemma bang_state_eq: "bang_state = \<lparr>events = [(''tick'', 1)], heap = [(1, [3, 6])], world = 0\<rparr>"
  by (simp add: bang_state_def eval_defs scenario_defs)

lemma partial_state_eq:
  "partial_state = \<lparr>events = [(''tick'', 1)], heap = [(1, [1, 7])], world = 0\<rparr>"
  by (simp add: partial_state_def eval_defs scenario_defs)

lemma meddler_state_eq:
  "meddler_state = \<lparr>events = [(''tick'', 1)], heap = [(1, [9, 1])], world = 0\<rparr>"
  by (simp add: meddler_state_def eval_defs scenario_defs)

text \<open>A subscriber that subscribes to the event being dispatched: the next step of the
  iteration finds the set grown and raises, although no subscriber raised. The only call made
  is the one of \<^verbatim>\<open>meddler\<close>, which returned.\<close>

lemma emit_set_changed_size:
  "emit objs ''tick'' [] [] meddler_state
     = (Inl RuntimeError,
        \<lparr>events = [(''tick'', 1)], heap = [(1, [9, 1, 4])], world = 0\<rparr>,
        [\<lparr>callee = 9, given_args = [], given_kwargs = [], outcome = Inr NoneV\<rparr>])"
  by (simp add: meddler_state_eq emit_def event_funcs_def emit_loop.simps gen_next.simps
      setiter_next_def call_def getitem_def deref_def on_def set_add_def scenario_defs)

text \<open>The callables of the scenario keep the invariant, so it holds in every state reachable
  with them.\<close>

lemma wf_world_update: "wf_state st \<Longrightarrow> wf_state (st\<lparr>world := w\<rparr>)"
  by (simp add: wf_state_def)

lemma keeps_wf_objs: "keeps_wf objs"
  by (auto simp: keeps_wf_def scenario_defs wf_on wf_world_update)

section \<open>The claims\<close>

text \<open>
  \<^bold>\<open>C1\<close>, as stated, fails: the subscribers may raise, and \<^verbatim>\<open>emit\<close> does not catch. With
  \<^verbatim>\<open>boom\<close> and \<^verbatim>\<open>inc\<close> subscribed to \<^verbatim>\<open>"tick"\<close>, \<^verbatim>\<open>emit("tick")\<close> calls
  \<^verbatim>\<open>boom\<close>, which raises, and so does \<^verbatim>\<open>emit\<close>: it neither calls \<^verbatim>\<open>inc\<close> nor
  returns.
\<close>

theorem emit_skips_after_raise:
  "subscribers ''tick'' boom_state = [3, 1] \<and>
   emit objs ''tick'' [] [] boom_state
     = (Inl (Other ''boom''), boom_state,
        [\<lparr>callee = 3, given_args = [], given_kwargs = [], outcome = Inl (Other ''boom'')\<rparr>])"
  by (simp add: boom_state_eq subscribers_def stored_def emit_def event_funcs_def
      emit_loop.simps gen_next.simps setiter_next_def call_def getitem_def deref_def
      scenario_defs)

text \<open>
  \<^bold>\<open>C1\<close>, amended. Let \<^verbatim>\<open>emit(e, *args, **kwargs)\<close> run in a state that satisfies the
  invariant, as every reachable state does. If the subscribers of \<open>e\<close>, called one after the
  other with these arguments, each return and leave the set of \<open>e\<close> with the members it had,
  then \<^verbatim>\<open>emit\<close> returns nothing, and the calls it made are exactly one call of each
  subscriber of \<open>e\<close>, in the order of the set, each with the same \<open>args\<close> and \<open>kwargs\<close>; the
  subscribers have no repetition, so "one call of each" is exactly one. The state afterwards
  is the one the calls produced from the state after the lookup of \<open>e\<close>; with no subscriber,
  nothing is called and only an empty entry for \<open>e\<close> is created when there was none.
  (The calls counted are those that \<^verbatim>\<open>emit\<close> makes itself. A subscriber that raises is
  the matter of C2; a subscriber that changes the size of the set of \<open>e\<close> makes \<^verbatim>\<open>emit\<close>
  raise \<^verbatim>\<open>RuntimeError\<close>, as \<open>emit_set_changed_size\<close> shows.)
\<close>

theorem emit_invokes_each_subscriber:
  assumes "wf_state st"
    and "run F (fst (getitem e st)) (subscribers e st) args kwargs (snd (getitem e st))
           = Some (st', cs)"
  shows "emit F e args kwargs st = (Inr (), st', cs) \<and>
         map callee cs = subscribers e st \<and>
         (\<forall>c\<in>set cs. given_args c = args \<and> given_kwargs c = kwargs \<and> (\<exists>v. outcome c = Inr v)) \<and>
         distinct (subscribers e st) \<and>
         (subscribers e st = [] \<longrightarrow> st' = snd (getitem e st) \<and> cs = [])"
proof -
  have 1: "emit F e args kwargs st = (Inr (), st', cs)" using assms(2) by (rule emit_run)
  have 2: "map callee cs = subscribers e st \<and>
         (\<forall>c\<in>set cs. given_args c = args \<and> given_kwargs c = kwargs \<and> (\<exists>v. outcome c = Inr v))"
    using run_facts[OF assms(2)] by simp
  have 3: "distinct (subscribers e st)" using assms(1) by (rule wf_subscribers)
  have 4: "subscribers e st = [] \<longrightarrow> st' = snd (getitem e st) \<and> cs = []"
    using assms(2) by auto
  from 1 2 3 4 show ?thesis by blast
qed

theorem emit_invokes_each_subscriber_witness:
  "wf_state tick_state \<and>
   subscribers ''tick'' tick_state = [1, 2] \<and>
   getitem ''tick'' tick_state = (1, tick_state) \<and>
   run objs 1 [1, 2] [IntV 7] [(''k'', StrV ''v'')] tick_state
     = Some (tick_state\<lparr>world := 1\<rparr>,
             [\<lparr>callee = 1, given_args = [IntV 7], given_kwargs = [(''k'', StrV ''v'')],
               outcome = Inr NoneV\<rparr>,
              \<lparr>callee = 2, given_args = [IntV 7], given_kwargs = [(''k'', StrV ''v'')],
               outcome = Inr NoneV\<rparr>]) \<and>
   emit objs ''tick'' [IntV 7] [(''k'', StrV ''v'')] tick_state
     = (Inr (), tick_state\<lparr>world := 1\<rparr>,
        [\<lparr>callee = 1, given_args = [IntV 7], given_kwargs = [(''k'', StrV ''v'')],
          outcome = Inr NoneV\<rparr>,
         \<lparr>callee = 2, given_args = [IntV 7], given_kwargs = [(''k'', StrV ''v'')],
          outcome = Inr NoneV\<rparr>]) \<and>
   subscribers ''tock'' tick_state = [] \<and>
   emit objs ''tock'' [] [] tick_state
     = (Inr (), \<lparr>events = [(''tick'', 1), (''tock'', 2)], heap = [(1, [1, 2]), (2, [])],
                 world = 0\<rparr>, [])"
proof -
  have w: "wf_state tick_state" by (simp add: tick_state_eq wf_state_def)
  have s: "subscribers ''tick'' tick_state = [1, 2]" "subscribers ''tock'' tick_state = []"
    by (simp_all add: tick_state_eq subscribers_def stored_def deref_def)
  have g: "getitem ''tick'' tick_state = (1, tick_state)"
    by (simp add: tick_state_eq getitem_def)
  have g': "getitem ''tock'' tick_state
      = (2, \<lparr>events = [(''tick'', 1), (''tock'', 2)], heap = [(1, [1, 2]), (2, [])], world = 0\<rparr>)"
    by (simp add: tick_state_eq getitem_def fresh_def)
  have r: "run objs 1 [1, 2] [IntV 7] [(''k'', StrV ''v'')] tick_state
     = Some (tick_state\<lparr>world := 1\<rparr>,
             [\<lparr>callee = 1, given_args = [IntV 7], given_kwargs = [(''k'', StrV ''v'')],
               outcome = Inr NoneV\<rparr>,
              \<lparr>callee = 2, given_args = [IntV 7], given_kwargs = [(''k'', StrV ''v'')],
               outcome = Inr NoneV\<rparr>])"
    by (simp add: tick_state_eq call_def deref_def scenario_defs)
  have r1: "run objs (fst (getitem ''tick'' tick_state)) (subscribers ''tick'' tick_state)
              [IntV 7] [(''k'', StrV ''v'')] (snd (getitem ''tick'' tick_state))
     = Some (tick_state\<lparr>world := 1\<rparr>,
             [\<lparr>callee = 1, given_args = [IntV 7], given_kwargs = [(''k'', StrV ''v'')],
               outcome = Inr NoneV\<rparr>,
              \<lparr>callee = 2, given_args = [IntV 7], given_kwargs = [(''k'', StrV ''v'')],
               outcome = Inr NoneV\<rparr>])"
    using r by (simp add: g s)
  have r2: "run objs (fst (getitem ''tock'' tick_state)) (subscribers ''tock'' tick_state)
              [] [] (snd (getitem ''tock'' tick_state))
     = Some (\<lparr>events = [(''tick'', 1), (''tock'', 2)], heap = [(1, [1, 2]), (2, [])], world = 0\<rparr>,
             [])"
    by (simp add: g' s)
  from emit_invokes_each_subscriber[OF w r1] emit_invokes_each_subscriber[OF w r2] w s g r
  show ?thesis by simp
qed

text \<open>
  \<^bold>\<open>C2.\<close> In every run of \<^verbatim>\<open>emit\<close>, whatever the subscribers do to the bus: every call
  made but the last returned, and if the last call raised \<open>x\<close> then \<^verbatim>\<open>emit\<close> raised \<open>x\<close>
  to its caller. So a subscriber that raises is the last one called, and its exception is the
  one that \<^verbatim>\<open>emit\<close> raises. In terms of the set: let \<open>i\<close> be a subscriber of \<open>e\<close>, the
  subscribers before it in the iteration be \<open>pre\<close> and those after it \<open>post\<close>; if
  \<^verbatim>\<open>emit\<close> gets as far as \<open>i\<close> (the calls of \<open>pre\<close> return and leave the set with its
  members) and \<open>i\<close> raises \<open>x\<close>, then \<^verbatim>\<open>emit\<close> raises \<open>x\<close>, the state is the one
  \<open>i\<close> left, the calls made are those of \<open>pre\<close> and of \<open>i\<close>, and none of \<open>post\<close>, which
  are other callables than these.
\<close>

theorem emit_propagates_exception:
  assumes "emit F e args kwargs st = (res, st', tr)"
  shows "(\<forall>n. Suc n < length tr \<longrightarrow> (\<exists>v. outcome (tr ! n) = Inr v)) \<and>
         (\<forall>x. tr \<noteq> [] \<longrightarrow> outcome (last tr) = Inl x \<longrightarrow> res = Inl x) \<and>
         (\<forall>pre i post st2 cs x st3 c.
            wf_state st \<and> subscribers e st = pre @ i # post \<and>
            run F (fst (getitem e st)) pre args kwargs (snd (getitem e st)) = Some (st2, cs) \<and>
            call F i args kwargs st2 = (Inl x, st3, c)
            \<longrightarrow> res = Inl x \<and> st' = st3 \<and> tr = cs @ [c] \<and> map callee tr = pre @ [i] \<and>
                outcome c = Inl x \<and> set post \<inter> set (pre @ [i]) = {})"
proof -
  from assms have
    l: "emit_loop F (Suspended (fst (getitem e st)) (length (subscribers e st)) 0) args kwargs
          (snd (getitem e st)) = (res, st', tr)"
    by (simp add: emit_unfold)
  note s = emit_loop_shape[OF l]
  have 3: "res = Inl x \<and> st' = st3 \<and> tr = cs @ [c] \<and> map callee tr = pre @ [i] \<and>
           outcome c = Inl x \<and> set post \<inter> set (pre @ [i]) = {}"
    if h: "wf_state st \<and> subscribers e st = pre @ i # post \<and>
           run F (fst (getitem e st)) pre args kwargs (snd (getitem e st)) = Some (st2, cs) \<and>
           call F i args kwargs st2 = (Inl x, st3, c)"
    for pre i post st2 cs x st3 c
  proof -
    from h have h1: "subscribers e st = pre @ i # post"
      and h2: "run F (fst (getitem e st)) pre args kwargs (snd (getitem e st)) = Some (st2, cs)"
      and h3: "call F i args kwargs st2 = (Inl x, st3, c)"
      by simp_all
    have "emit F e args kwargs st = (Inl x, st3, cs @ [c])"
      using h1 h2 h3 by (rule emit_run_raise)
    with assms have a: "res = Inl x" "st' = st3" "tr = cs @ [c]" by simp_all
    have b: "map callee cs = pre" using run_facts[OF h2] by simp
    from h3 have c: "callee c = i" "outcome c = Inl x"
      by (auto simp: call_def split: prod.splits)
    from h have "distinct (pre @ i # post)" using wf_subscribers[of st e] by simp
    then have d: "set post \<inter> set (pre @ [i]) = {}" by auto
    from a b c d show ?thesis by simp
  qed
  from s 3 show ?thesis by blast
qed

theorem emit_propagates_exception_witness:
  "emit objs ''tick'' [] [] mixed_state
     = (Inl (Other ''boom''), mixed_state\<lparr>world := 1\<rparr>,
        [\<lparr>callee = 1, given_args = [], given_kwargs = [], outcome = Inr NoneV\<rparr>,
         \<lparr>callee = 3, given_args = [], given_kwargs = [], outcome = Inl (Other ''boom'')\<rparr>]) \<and>
   wf_state mixed_state \<and>
   subscribers ''tick'' mixed_state = [1] @ 3 # [2] \<and>
   getitem ''tick'' mixed_state = (1, mixed_state) \<and>
   run objs 1 [1] [] [] mixed_state
     = Some (mixed_state\<lparr>world := 1\<rparr>,
             [\<lparr>callee = 1, given_args = [], given_kwargs = [], outcome = Inr NoneV\<rparr>]) \<and>
   call objs 3 [] [] (mixed_state\<lparr>world := 1\<rparr>)
     = (Inl (Other ''boom''), mixed_state\<lparr>world := 1\<rparr>,
        \<lparr>callee = 3, given_args = [], given_kwargs = [], outcome = Inl (Other ''boom'')\<rparr>)"
proof -
  let ?c1 = "\<lparr>callee = 1, given_args = [], given_kwargs = [], outcome = Inr NoneV\<rparr> :: val invocation"
  let ?c3 = "\<lparr>callee = 3, given_args = [], given_kwargs = [],
              outcome = Inl (Other ''boom'')\<rparr> :: val invocation"
  have w: "wf_state mixed_state" by (simp add: mixed_state_eq wf_state_def)
  have s: "subscribers ''tick'' mixed_state = [1] @ 3 # [2]"
    by (simp add: mixed_state_eq subscribers_def stored_def deref_def)
  have g: "getitem ''tick'' mixed_state = (1, mixed_state)"
    by (simp add: mixed_state_eq getitem_def)
  have r: "run objs 1 [1] [] [] mixed_state = Some (mixed_state\<lparr>world := 1\<rparr>, [?c1])"
    by (simp add: mixed_state_eq call_def deref_def scenario_defs)
  have c: "call objs 3 [] [] (mixed_state\<lparr>world := 1\<rparr>)
             = (Inl (Other ''boom''), mixed_state\<lparr>world := 1\<rparr>, ?c3)"
    by (simp add: call_def scenario_defs)
  obtain res st' tr where e: "emit objs ''tick'' [] [] mixed_state = (res, st', tr)"
    by (metis prod.collapse)
  have h: "wf_state mixed_state \<and> subscribers ''tick'' mixed_state = [1] @ 3 # [2] \<and>
           run objs (fst (getitem ''tick'' mixed_state)) [1] [] [] (snd (getitem ''tick'' mixed_state))
             = Some (mixed_state\<lparr>world := 1\<rparr>, [?c1]) \<and>
           call objs 3 [] [] (mixed_state\<lparr>world := 1\<rparr>)
             = (Inl (Other ''boom''), mixed_state\<lparr>world := 1\<rparr>, ?c3)"
    using w s r c by (simp add: g)
  from emit_propagates_exception[OF e] h
  have "res = Inl (Other ''boom'') \<and> st' = mixed_state\<lparr>world := 1\<rparr> \<and> tr = [?c1] @ [?c3]"
    by blast
  with e w s g r c show ?thesis by simp
qed

text \<open>
  \<^bold>\<open>C3\<close>, as stated, fails for the same reason as C1. With \<^verbatim>\<open>boom\<close> and \<^verbatim>\<open>bang\<close>
  subscribed to \<^verbatim>\<open>"tick"\<close>, both of which raise,
  \<^verbatim>\<open>emit_only("tick", ["boom", "bang"])\<close> calls the one that comes first in the set and
  never the other, a subscriber whose name is among those given.
\<close>

theorem emit_only_skips_after_raise:
  "subscribers ''tick'' bang_state = [3, 6] \<and>
   named_in objs [''boom'', ''bang''] 3 \<and> named_in objs [''boom'', ''bang''] 6 \<and>
   emit_only objs ''tick'' (Names [''boom'', ''bang'']) [] [] bang_state
     = (Inl (Other ''boom''), bang_state,
        [\<lparr>callee = 3, given_args = [], given_kwargs = [], outcome = Inl (Other ''boom'')\<rparr>])"
  by (simp add: bang_state_eq subscribers_def stored_def named_in_def emit_only_def
      event_funcs_def emit_only_loop.simps gen_next.simps setiter_next_def call_def getitem_def
      deref_def scenario_defs)

text \<open>
  \<^bold>\<open>C3\<close>, amended. Let \<open>ns\<close> be the names given to \<^verbatim>\<open>emit_only\<close>, a single string standing
  for the list of that one string.
  \<^item> In every run, each call made is a call of a callable whose \<^verbatim>\<open>__name__\<close> is in \<open>ns\<close>,
    with the \<open>args\<close> and \<open>kwargs\<close> given: no subscriber with another name is invoked.
  \<^item> In a state that satisfies the invariant, if every subscriber of \<open>e\<close> has a
    \<^verbatim>\<open>__name__\<close>, and the subscribers of \<open>e\<close> whose name is in \<open>ns\<close>, called one after the
    other, each return and leave the set of \<open>e\<close> with the members it had, then
    \<^verbatim>\<open>emit_only\<close> returns nothing and the calls it made are exactly one call of each
    subscriber of \<open>e\<close> whose name is in \<open>ns\<close>, and of no other.
  (A subscriber without \<^verbatim>\<open>__name__\<close> makes \<^verbatim>\<open>emit_only\<close> raise
  \<^verbatim>\<open>AttributeError\<close> when the iteration reaches it.)
\<close>

theorem emit_only_invokes_named:
  assumes "emit_only F e ns args kwargs st = (res, st', tr)"
  shows "(\<forall>c\<in>set tr. named_in F (normalize ns) (callee c) \<and>
                     given_args c = args \<and> given_kwargs c = kwargs) \<and>
         (\<forall>st2 cs.
            wf_state st \<and> (\<forall>i\<in>set (subscribers e st). fname (F i) \<noteq> None) \<and>
            run F (fst (getitem e st)) (filter (named_in F (normalize ns)) (subscribers e st))
              args kwargs (snd (getitem e st)) = Some (st2, cs)
            \<longrightarrow> res = Inr () \<and> st' = st2 \<and> tr = cs \<and>
                map callee tr = filter (named_in F (normalize ns)) (subscribers e st) \<and>
                distinct (map callee tr)) \<and>
         normalize (Str s) = [s] \<and>
         emit_only F e (Str s) args kwargs st = emit_only F e (Names [s]) args kwargs st"
proof -
  from assms have
    l: "emit_only_loop F (Suspended (fst (getitem e st)) (length (subscribers e st)) 0)
          (normalize ns) args kwargs (snd (getitem e st)) = (res, st', tr)"
    by (simp add: emit_only_unfold)
  note 1 = emit_only_loop_calls[OF l]
  have 2: "res = Inr () \<and> st' = st2 \<and> tr = cs \<and>
           map callee tr = filter (named_in F (normalize ns)) (subscribers e st) \<and>
           distinct (map callee tr)"
    if h: "wf_state st \<and> (\<forall>i\<in>set (subscribers e st). fname (F i) \<noteq> None) \<and>
           run F (fst (getitem e st)) (filter (named_in F (normalize ns)) (subscribers e st))
             args kwargs (snd (getitem e st)) = Some (st2, cs)"
    for st2 cs
  proof -
    from h have h1: "\<forall>i\<in>set (subscribers e st). fname (F i) \<noteq> None"
      and h2: "run F (fst (getitem e st)) (filter (named_in F (normalize ns)) (subscribers e st))
                 args kwargs (snd (getitem e st)) = Some (st2, cs)"
      by simp_all
    have "emit_only F e ns args kwargs st = (Inr (), st2, cs)"
      using h1 h2 by (rule emit_only_run)
    with assms have a: "res = Inr ()" "st' = st2" "tr = cs" by simp_all
    have b: "map callee cs = filter (named_in F (normalize ns)) (subscribers e st)"
      using run_facts[OF h2] by simp
    from h have "distinct (subscribers e st)" using wf_subscribers[of st e] by simp
    then have "distinct (filter (named_in F (normalize ns)) (subscribers e st))" by simp
    with a b show ?thesis by simp
  qed
  have 4: "emit_only F e (Str s) args kwargs st = emit_only F e (Names [s]) args kwargs st"
    by (simp add: emit_only_def)
  have 3: "normalize (Str s) = [s]" by simp
  from 1 2 3 4 show ?thesis by blast
qed

theorem emit_only_invokes_named_witness:
  "emit_only objs ''tick'' (Str ''inc'') [IntV 7] [] mixed_state
     = (Inr (), mixed_state\<lparr>world := 1\<rparr>,
        [\<lparr>callee = 1, given_args = [IntV 7], given_kwargs = [], outcome = Inr NoneV\<rparr>]) \<and>
   wf_state mixed_state \<and>
   subscribers ''tick'' mixed_state = [1, 3, 2] \<and>
   fname (objs 1) = Some ''inc'' \<and> fname (objs 3) = Some ''boom'' \<and>
   fname (objs 2) = Some ''log'' \<and>
   filter (named_in objs (normalize (Str ''inc''))) [1, 3, 2] = [1] \<and>
   getitem ''tick'' mixed_state = (1, mixed_state) \<and>
   run objs 1 [1] [IntV 7] [] mixed_state
     = Some (mixed_state\<lparr>world := 1\<rparr>,
             [\<lparr>callee = 1, given_args = [IntV 7], given_kwargs = [], outcome = Inr NoneV\<rparr>])"
proof -
  let ?c1 = "\<lparr>callee = 1, given_args = [IntV 7], given_kwargs = [],
              outcome = Inr NoneV\<rparr> :: val invocation"
  have w: "wf_state mixed_state" by (simp add: mixed_state_eq wf_state_def)
  have s: "subscribers ''tick'' mixed_state = [1, 3, 2]"
    by (simp add: mixed_state_eq subscribers_def stored_def deref_def)
  have n: "fname (objs 1) = Some ''inc''" "fname (objs 3) = Some ''boom''"
          "fname (objs 2) = Some ''log''"
    by (simp_all add: scenario_defs)
  have f: "filter (named_in objs (normalize (Str ''inc''))) [1, 3, 2] = [1]"
    by (simp add: named_in_def scenario_defs)
  have g: "getitem ''tick'' mixed_state = (1, mixed_state)"
    by (simp add: mixed_state_eq getitem_def)
  have r: "run objs 1 [1] [IntV 7] [] mixed_state = Some (mixed_state\<lparr>world := 1\<rparr>, [?c1])"
    by (simp add: mixed_state_eq call_def deref_def scenario_defs)
  obtain res st' tr where
    e: "emit_only objs ''tick'' (Str ''inc'') [IntV 7] [] mixed_state = (res, st', tr)"
    by (metis prod.collapse)
  have h: "wf_state mixed_state \<and> (\<forall>i\<in>set (subscribers ''tick'' mixed_state). fname (objs i) \<noteq> None) \<and>
           run objs (fst (getitem ''tick'' mixed_state))
             (filter (named_in objs (normalize (Str ''inc''))) (subscribers ''tick'' mixed_state))
             [IntV 7] [] (snd (getitem ''tick'' mixed_state))
             = Some (mixed_state\<lparr>world := 1\<rparr>, [?c1])"
    unfolding s f g fst_conv snd_conv using w r n by simp
  from emit_only_invokes_named[OF e, of "''inc''"] h
  have "res = Inr () \<and> st' = mixed_state\<lparr>world := 1\<rparr> \<and> tr = [?c1]"
    by blast
  with e w s n f g r show ?thesis by simp
qed

text \<open>
  \<^bold>\<open>C4\<close>, as stated, fails when a subscriber of the event raises: the wrapper then raises
  too, instead of returning the result of the wrapped function. With \<^verbatim>\<open>boom\<close> subscribed to
  \<^verbatim>\<open>"tick"\<close>, the function \<^verbatim>\<open>answer\<close> wrapped by \<^verbatim>\<open>emit_after("tick")\<close> returns 42
  inside the wrapper, and the wrapper raises what \<^verbatim>\<open>boom\<close> raises.
\<close>

theorem emit_after_loses_result:
  "emit_after objs ''tick'' 4 [] [] boom_state
     = (Inl (Other ''boom''), boom_state,
        [\<lparr>callee = 4, given_args = [], given_kwargs = [], outcome = Inr (IntV 42)\<rparr>,
         \<lparr>callee = 3, given_args = [], given_kwargs = [], outcome = Inl (Other ''boom'')\<rparr>])"
  by (simp add: boom_state_eq emit_after_def emit_def event_funcs_def emit_loop.simps
      gen_next.simps setiter_next_def call_def getitem_def deref_def scenario_defs)

text \<open>
  \<^bold>\<open>C4\<close>, amended. A call of the wrapper made by \<^verbatim>\<open>emit_after(e)\<close> around \<open>g\<close> first calls
  \<open>g\<close> with the arguments of the call.
  \<^item> If \<open>g\<close> returns \<open>v\<close>, the wrapper then emits \<open>e\<close>, giving the subscribers no arguments.
    If that \<^verbatim>\<open>emit\<close> returns, the wrapper returns \<open>v\<close>; if it raises, the wrapper raises
    the same exception. In both cases the calls made are the one of \<open>g\<close> followed by those of
    the \<^verbatim>\<open>emit\<close>. The \<^verbatim>\<open>emit\<close> returns, having called each subscriber of \<open>e\<close> once,
    if the subscribers, called one after the other with no arguments, each return and leave
    the set of \<open>e\<close> with the members it had.
  \<^item> If \<open>g\<close> raises, the wrapper raises the same exception, the only call made is the one of
    \<open>g\<close>, and the state is the one \<open>g\<close> left: \<open>e\<close> is not emitted.
\<close>

theorem emit_after_runs_then_emits:
  assumes "call F g args kwargs st = (rg, st1, c)"
    and "emit F e [] [] st1 = (re, st2, cs)"
  shows "(rg = Inr v \<and> re = Inr () \<longrightarrow>
            emit_after F e g args kwargs st = (Inr v, st2, c # cs)) \<and>
         (rg = Inr v \<and> re = Inl x \<longrightarrow>
            emit_after F e g args kwargs st = (Inl x, st2, c # cs)) \<and>
         (rg = Inl x \<longrightarrow> emit_after F e g args kwargs st = (Inl x, st1, [c])) \<and>
         callee c = g \<and> given_args c = args \<and> given_kwargs c = kwargs \<and> outcome c = rg \<and>
         (\<forall>c'\<in>set cs. given_args c' = [] \<and> given_kwargs c' = []) \<and>
         (\<forall>st3 cs'.
            run F (fst (getitem e st1)) (subscribers e st1) [] [] (snd (getitem e st1))
              = Some (st3, cs')
            \<longrightarrow> re = Inr () \<and> st2 = st3 \<and> cs = cs' \<and> map callee cs = subscribers e st1)"
proof -
  have 1: "rg = Inr v \<and> re = Inr () \<longrightarrow> emit_after F e g args kwargs st = (Inr v, st2, c # cs)"
    using assms by (simp add: emit_after_def)
  have 2: "rg = Inr v \<and> re = Inl x \<longrightarrow> emit_after F e g args kwargs st = (Inl x, st2, c # cs)"
    using assms by (simp add: emit_after_def)
  have 3: "rg = Inl x \<longrightarrow> emit_after F e g args kwargs st = (Inl x, st1, [c])"
    using assms(1) by (simp add: emit_after_def)
  have 4: "callee c = g \<and> given_args c = args \<and> given_kwargs c = kwargs \<and> outcome c = rg"
    using assms(1) by (auto simp: call_def split: prod.splits)
  from assms(2) have
    l: "emit_loop F (Suspended (fst (getitem e st1)) (length (subscribers e st1)) 0) [] []
          (snd (getitem e st1)) = (re, st2, cs)"
    by (simp add: emit_unfold)
  have 5: "\<forall>c'\<in>set cs. given_args c' = [] \<and> given_kwargs c' = []"
    using emit_loop_shape[OF l] by simp
  have 6: "re = Inr () \<and> st2 = st3 \<and> cs = cs' \<and> map callee cs = subscribers e st1"
    if h: "run F (fst (getitem e st1)) (subscribers e st1) [] [] (snd (getitem e st1))
             = Some (st3, cs')" for st3 cs'
  proof -
    from emit_run[OF h] assms(2) have "re = Inr ()" "st2 = st3" "cs = cs'" by simp_all
    with run_facts[OF h] show ?thesis by simp
  qed
  from 1 2 3 4 5 6 show ?thesis by blast
qed

theorem emit_after_runs_then_emits_witness:
  "call objs 4 [IntV 1] [] tick_state
     = (Inr (IntV 42), tick_state,
        \<lparr>callee = 4, given_args = [IntV 1], given_kwargs = [], outcome = Inr (IntV 42)\<rparr>) \<and>
   emit objs ''tick'' [] [] tick_state
     = (Inr (), tick_state\<lparr>world := 1\<rparr>,
        [\<lparr>callee = 1, given_args = [], given_kwargs = [], outcome = Inr NoneV\<rparr>,
         \<lparr>callee = 2, given_args = [], given_kwargs = [], outcome = Inr NoneV\<rparr>]) \<and>
   emit_after objs ''tick'' 4 [IntV 1] [] tick_state
     = (Inr (IntV 42), tick_state\<lparr>world := 1\<rparr>,
        [\<lparr>callee = 4, given_args = [IntV 1], given_kwargs = [], outcome = Inr (IntV 42)\<rparr>,
         \<lparr>callee = 1, given_args = [], given_kwargs = [], outcome = Inr NoneV\<rparr>,
         \<lparr>callee = 2, given_args = [], given_kwargs = [], outcome = Inr NoneV\<rparr>]) \<and>
   call objs 3 [IntV 1] [] tick_state
     = (Inl (Other ''boom''), tick_state,
        \<lparr>callee = 3, given_args = [IntV 1], given_kwargs = [],
         outcome = Inl (Other ''boom'')\<rparr>) \<and>
   emit_after objs ''tick'' 3 [IntV 1] [] tick_state
     = (Inl (Other ''boom''), tick_state,
        [\<lparr>callee = 3, given_args = [IntV 1], given_kwargs = [],
          outcome = Inl (Other ''boom'')\<rparr>])"
proof -
  have c: "call objs 4 [IntV 1] [] tick_state
     = (Inr (IntV 42), tick_state,
        \<lparr>callee = 4, given_args = [IntV 1], given_kwargs = [], outcome = Inr (IntV 42)\<rparr>)"
    by (simp add: call_def scenario_defs)
  have e: "emit objs ''tick'' [] [] tick_state
     = (Inr (), tick_state\<lparr>world := 1\<rparr>,
        [\<lparr>callee = 1, given_args = [], given_kwargs = [], outcome = Inr NoneV\<rparr>,
         \<lparr>callee = 2, given_args = [], given_kwargs = [], outcome = Inr NoneV\<rparr>])"
    by (simp add: tick_state_eq emit_def event_funcs_def emit_loop.simps gen_next.simps
        setiter_next_def call_def getitem_def deref_def scenario_defs)
  have c': "call objs 3 [IntV 1] [] tick_state
     = (Inl (Other ''boom''), tick_state,
        \<lparr>callee = 3, given_args = [IntV 1], given_kwargs = [],
         outcome = Inl (Other ''boom'')\<rparr>)"
    by (simp add: call_def scenario_defs)
  from emit_after_runs_then_emits[OF c e, of "IntV 42" "Other ''none''"]
       emit_after_runs_then_emits[OF c' e, of NoneV "Other ''boom''"]
       c e c'
  show ?thesis by simp
qed

text \<open>
  \<^bold>\<open>C5\<close>, as stated, fails: not every callable is accepted. The set hashes what is added
  to it, so for a callable that cannot be hashed \<^verbatim>\<open>add\<close> raises \<^verbatim>\<open>TypeError\<close>; the
  lookup before it has already created the entry of the event, which stays, empty.
\<close>

theorem on_refuses_unhashable:
  "hashable (objs 8) = False \<and>
   on objs ''tick'' 8 s0
     = (Inl TypeError, \<lparr>events = [(''tick'', 1)], heap = [(1, [])], world = 0\<rparr>)"
  by (simp add: eval_defs scenario_defs)

text \<open>
  \<^bold>\<open>C5\<close>, amended. Applied to a hashable callable \<open>f\<close> (every function is one; its
  \<^verbatim>\<open>__name__\<close>, if it has one, a string), the
  decorator returned by \<^verbatim>\<open>on(e)\<close> raises nothing. Afterwards the subscribers of \<open>e\<close> are
  the former ones and \<open>f\<close>, which is added last unless it is one of them already. The wrapper
  returned has the behaviour of \<open>f\<close>: called with any arguments in any state, it gives the
  result of \<open>f\<close> and has the effects of \<open>f\<close>. It carries the \<^verbatim>\<open>__name__\<close> of \<open>f\<close> when
  \<open>f\<close> has one, and its own name \<^verbatim>\<open>wrapper\<close> otherwise. It is a new function object; \<open>f\<close>,
  not the wrapper, is what is registered. An unhashable callable is refused with
  \<^verbatim>\<open>TypeError\<close>, after the lookup of \<open>e\<close>.
\<close>

theorem on_registers_and_wraps:
  "(hashable (F i) \<longrightarrow>
      fst (on F e i st)
        = Inr \<lparr>hashable = True,
               fname = (case fname (F i) of Some n \<Rightarrow> Some n | None \<Rightarrow> Some ''wrapper''),
               body = body (F i)\<rparr> \<and>
      subscribers e (snd (on F e i st))
        = (if i \<in> set (subscribers e st) then subscribers e st else subscribers e st @ [i]) \<and>
      set (subscribers e (snd (on F e i st))) = insert i (set (subscribers e st)) \<and>
      world (snd (on F e i st)) = world st) \<and>
   (\<not> hashable (F i) \<longrightarrow> on F e i st = (Inl TypeError, snd (getitem e st)))"
proof -
  have 1: "hashable (F i) \<longrightarrow>
      fst (on F e i st)
        = Inr \<lparr>hashable = True,
               fname = (case fname (F i) of Some n \<Rightarrow> Some n | None \<Rightarrow> Some ''wrapper''),
               body = body (F i)\<rparr>"
    by (simp add: on_hashable)
  have 2: "hashable (F i) \<longrightarrow>
      subscribers e (snd (on F e i st))
        = (if i \<in> set (subscribers e st) then subscribers e st else subscribers e st @ [i])"
    by (simp add: subscribers_on)
  have 3: "hashable (F i) \<longrightarrow>
      set (subscribers e (snd (on F e i st))) = insert i (set (subscribers e st))"
    by (auto simp: subscribers_on)
  have 4: "hashable (F i) \<longrightarrow> world (snd (on F e i st)) = world st"
    by (simp add: on_hashable)
  have 5: "\<not> hashable (F i) \<longrightarrow> on F e i st = (Inl TypeError, snd (getitem e st))"
    by (simp add: on_unhashable)
  from 1 2 3 4 5 show ?thesis by blast
qed

theorem on_registers_and_wraps_witness:
  "hashable (objs 1) \<and> fname (objs 1) = Some ''inc'' \<and>
   on objs ''tick'' 1 s0
     = (Inr \<lparr>hashable = True, fname = Some ''inc'', body = body inc\<rparr>,
        \<lparr>events = [(''tick'', 1)], heap = [(1, [1])], world = 0\<rparr>) \<and>
   subscribers ''tick'' s0 = [] \<and>
   subscribers ''tick'' (snd (on objs ''tick'' 1 s0)) = [1] \<and>
   hashable (objs 7) \<and> fname (objs 7) = None \<and>
   fst (on objs ''tick'' 7 s0)
     = Inr \<lparr>hashable = True, fname = Some ''wrapper'', body = body partial_obj\<rparr> \<and>
   \<not> hashable (objs 8) \<and>
   on objs ''tick'' 8 s0 = (Inl TypeError, snd (getitem ''tick'' s0))"
proof -
  have h: "hashable (objs 1)" "fname (objs 1) = Some ''inc''" "hashable (objs 7)"
    "fname (objs 7) = None" "\<not> hashable (objs 8)"
    by (simp_all add: scenario_defs)
  have b: "body (objs 1) = body inc" "body (objs 7) = body partial_obj"
    by (simp_all add: objs_def objs1_def)
  have o: "snd (on objs ''tick'' 1 s0) = \<lparr>events = [(''tick'', 1)], heap = [(1, [1])], world = 0\<rparr>"
    by (simp add: eval_defs scenario_defs)
  have s: "subscribers ''tick'' s0 = []" by (simp add: eval_defs)
  from on_registers_and_wraps[of objs 1 "''tick''" s0]
       on_registers_and_wraps[of objs 7 "''tick''" s0]
       on_registers_and_wraps[of objs 8 "''tick''" s0]
       h b o s
  show ?thesis by (simp add: prod_eq_iff)
qed

text \<open>
  \<^bold>\<open>C6.\<close> Subscribing the same callable to \<open>e\<close> a second time leaves the state as the first
  subscription left it. In every state that satisfies the invariant, as every reachable state
  does, a callable that could be subscribed is then exactly once among the subscribers of
  \<open>e\<close>. Membership goes by identity and not by name: a hashable callable that is not yet a
  subscriber becomes a new one, whatever its name.
\<close>

theorem on_same_function_twice:
  assumes "wf_state st"
  shows "snd (on F e i (snd (on F e i st))) = snd (on F e i st) \<and>
         (hashable (F i) \<longrightarrow>
            length (filter (\<lambda>j. j = i) (subscribers e (snd (on F e i (snd (on F e i st)))))) = 1) \<and>
         (hashable (F j) \<and> j \<notin> set (subscribers e (snd (on F e i st))) \<longrightarrow>
            subscribers e (snd (on F e j (snd (on F e i st))))
              = subscribers e (snd (on F e i st)) @ [j])"
proof -
  have 1: "snd (on F e i (snd (on F e i st))) = snd (on F e i st)"
    by (rule on_on_same)
  have 2: "length (filter (\<lambda>j. j = i) (subscribers e (snd (on F e i st)))) = 1"
    if h: "hashable (F i)"
  proof -
    have "wf_state (snd (on F e i st))" using assms by (rule wf_on)
    then have "distinct (subscribers e (snd (on F e i st)))" by (rule wf_subscribers)
    moreover have "i \<in> set (subscribers e (snd (on F e i st)))"
      using h by (simp add: subscribers_on)
    ultimately show ?thesis by (rule count_member)
  qed
  have 3: "hashable (F j) \<and> j \<notin> set (subscribers e (snd (on F e i st))) \<longrightarrow>
            subscribers e (snd (on F e j (snd (on F e i st))))
              = subscribers e (snd (on F e i st)) @ [j]"
    by (simp add: subscribers_on)
  from 1 2 3 show ?thesis by simp
qed

theorem on_same_function_twice_witness:
  "wf_state s0 \<and> hashable (objs 1) \<and> hashable (objs 5) \<and>
   snd (on objs ''tick'' 1 s0) = \<lparr>events = [(''tick'', 1)], heap = [(1, [1])], world = 0\<rparr> \<and>
   snd (on objs ''tick'' 1 (snd (on objs ''tick'' 1 s0)))
     = \<lparr>events = [(''tick'', 1)], heap = [(1, [1])], world = 0\<rparr> \<and>
   subscribers ''tick'' (snd (on objs ''tick'' 1 s0)) = [1] \<and>
   fname (objs 5) = fname (objs 1) \<and>
   subscribers ''tick'' (snd (on objs ''tick'' 5 (snd (on objs ''tick'' 1 s0)))) = [1, 5]"
proof -
  have w: "wf_state s0" by (simp add: s0_def EventBus_def wf_state_def)
  have h: "hashable (objs 1)" "hashable (objs 5)" "fname (objs 5) = fname (objs 1)"
    by (simp_all add: scenario_defs)
  have o: "snd (on objs ''tick'' 1 s0) = \<lparr>events = [(''tick'', 1)], heap = [(1, [1])], world = 0\<rparr>"
    by (simp add: eval_defs scenario_defs)
  have s: "subscribers ''tick'' (snd (on objs ''tick'' 1 s0)) = [1]"
    unfolding o by (simp add: subscribers_def stored_def deref_def)
  from on_same_function_twice[OF w, of objs "''tick''" 1 5] w h o s
  show ?thesis by simp
qed

text \<open>
  \<^bold>\<open>C7.\<close> In every state that satisfies the invariant, as every reachable state does,
  \<^verbatim>\<open>subscribed_event_count()\<close> is the sum, over the event names that have an entry, of the
  size of the set stored under the name; the same sum results over any finite collection \<open>K\<close>
  of names that contains them, since a name without an entry, like a name with an empty set,
  adds zero.
\<close>

theorem subscribed_event_count_is_sum:
  assumes "wf_state st" and "finite K" and "fst ` set (events st) \<subseteq> K"
  shows "subscribed_event_count st = (\<Sum>k\<in>K. int (length (subscribers k st)))"
proof -
  from assms(1) have "distinct (map fst (events st))" by (simp add: wf_state_def)
  then show ?thesis using assms(2,3) by (rule count_sum)
qed

theorem subscribed_event_count_is_sum_witness:
  "wf_state (snd (getitem ''tock'' tick_state)) \<and>
   finite {''tick'', ''tock'', ''never''} \<and>
   fst ` set (events (snd (getitem ''tock'' tick_state))) \<subseteq> {''tick'', ''tock'', ''never''} \<and>
   subscribers ''tick'' (snd (getitem ''tock'' tick_state)) = [1, 2] \<and>
   subscribers ''tock'' (snd (getitem ''tock'' tick_state)) = [] \<and>
   subscribers ''never'' (snd (getitem ''tock'' tick_state)) = [] \<and>
   subscribed_event_count (snd (getitem ''tock'' tick_state)) = 2"
proof -
  have g: "snd (getitem ''tock'' tick_state)
      = \<lparr>events = [(''tick'', 1), (''tock'', 2)], heap = [(1, [1, 2]), (2, [])], world = 0\<rparr>"
    by (simp add: tick_state_eq getitem_def fresh_def)
  have w: "wf_state (snd (getitem ''tock'' tick_state))"
    unfolding g by (simp add: wf_state_def)
  have k: "fst ` set (events (snd (getitem ''tock'' tick_state))) \<subseteq> {''tick'', ''tock'', ''never''}"
    unfolding g by simp
  have f: "finite {''tick'', ''tock'', ''never''}" by simp
  have s: "subscribers ''tick'' (snd (getitem ''tock'' tick_state)) = [1, 2]"
          "subscribers ''tock'' (snd (getitem ''tock'' tick_state)) = []"
          "subscribers ''never'' (snd (getitem ''tock'' tick_state)) = []"
    unfolding g by (simp_all add: subscribers_def stored_def deref_def)
  from subscribed_event_count_is_sum[OF w f k] w k s show ?thesis by simp
qed

text \<open>
  \<^bold>\<open>C8\<close>, as stated, fails: \<^verbatim>\<open>remove_subscriber\<close> reads the \<^verbatim>\<open>__name__\<close> of every
  subscriber of the event, and a subscriber without one makes it raise
  \<^verbatim>\<open>AttributeError\<close>. With \<^verbatim>\<open>inc\<close> and a callable without name subscribed to
  \<^verbatim>\<open>"tick"\<close>, \<^verbatim>\<open>remove_subscriber("tick", "inc")\<close> raises, and \<^verbatim>\<open>inc\<close> is a subscriber
  as before.
\<close>

theorem remove_subscriber_needs_names:
  "subscribers ''tick'' partial_state = [1, 7] \<and>
   fname (objs 1) = Some ''inc'' \<and> fname (objs 7) = None \<and>
   fst (remove_subscriber objs ''tick'' ''inc'' partial_state) = Inl AttributeError \<and>
   subscribers ''tick'' (snd (remove_subscriber objs ''tick'' ''inc'' partial_state)) = [1, 7]"
  by (simp add: partial_state_eq subscribers_def stored_def remove_subscriber_def
      event_funcs_def set_copy_def set_remove_def remove_loop.simps gen_next.simps
      setiter_next_def getitem_def deref_def fresh_def scenario_defs)

text \<open>
  \<^bold>\<open>C8\<close>, amended. In a state that satisfies the invariant, as every reachable state does,
  and in which every subscriber of \<open>e\<close> has a \<^verbatim>\<open>__name__\<close>, \<^verbatim>\<open>remove_subscriber(e, n)\<close>
  raises nothing. Afterwards the subscribers of \<open>e\<close> are the former ones whose name is not
  \<open>n\<close>, what is stored under every other event name is as before, and so is the world. If no
  subscriber has the name \<open>n\<close> (in particular if \<open>e\<close> has no entry), the dictionary holds
  what a lookup of \<open>e\<close> leaves: the same, but for an empty entry of \<open>e\<close> created when there
  was none. For an \<^verbatim>\<open>emit(e)\<close> that follows: if the remaining subscribers, called one
  after the other, each return and leave the set of \<open>e\<close> with the members it had, it calls
  exactly these, none of which has the name \<open>n\<close>; and if the calls of some of them return
  and the next one raises, it has called these and that one only.
\<close>

theorem remove_subscriber_by_name:
  assumes "wf_state st"
    and "\<forall>i\<in>set (subscribers e st). fname (F i) \<noteq> None"
    and "remove_subscriber F e n st = (r, st')"
  shows "r = Inr () \<and>
         subscribers e st' = filter (\<lambda>i. fname (F i) \<noteq> Some n) (subscribers e st) \<and>
         stored e st' = Some (filter (\<lambda>i. fname (F i) \<noteq> Some n) (subscribers e st)) \<and>
         (\<forall>e'. e' \<noteq> e \<longrightarrow> stored e' st' = stored e' st) \<and>
         world st' = world st \<and> wf_state st' \<and>
         ((\<forall>i\<in>set (subscribers e st). fname (F i) \<noteq> Some n)
            \<longrightarrow> contents st' = contents (snd (getitem e st))) \<and>
         getitem e st' = (fst (getitem e st'), st') \<and>
         (\<forall>st2 cs.
            run F (fst (getitem e st')) (filter (\<lambda>i. fname (F i) \<noteq> Some n) (subscribers e st))
              args kwargs st' = Some (st2, cs)
            \<longrightarrow> emit F e args kwargs st' = (Inr (), st2, cs) \<and>
                map callee cs = filter (\<lambda>i. fname (F i) \<noteq> Some n) (subscribers e st) \<and>
                (\<forall>c\<in>set cs. fname (F (callee c)) \<noteq> Some n)) \<and>
         (\<forall>pre i post st2 cs x st3 c.
            filter (\<lambda>i. fname (F i) \<noteq> Some n) (subscribers e st) = pre @ i # post \<and>
            run F (fst (getitem e st')) pre args kwargs st' = Some (st2, cs) \<and>
            call F i args kwargs st2 = (Inl x, st3, c)
            \<longrightarrow> emit F e args kwargs st' = (Inl x, st3, cs @ [c]) \<and>
                map callee (cs @ [c]) = pre @ [i] \<and>
                (\<forall>c\<in>set (cs @ [c]). fname (F (callee c)) \<noteq> Some n))"
proof -
  let ?keep = "filter (\<lambda>i. fname (F i) \<noteq> Some n) (subscribers e st)"
  let ?st1 = "snd (getitem e st)"
  let ?c = "fresh ?st1"
  from remove_subscriber_named[OF assms(1,2), of n] assms(3) have
    r: "r = Inr ()" and
    ev: "events st' = setitem e ?c (events ?st1)" and
    dc: "deref st' ?c = ?keep" and
    dr: "\<forall>r. r \<noteq> ?c \<longrightarrow> deref st' r = deref ?st1 r" and
    w: "world st' = world st"
    by auto
  from ev have m: "map_of (events st') e = Some ?c" by (simp add: map_of_setitem)
  with dc have s: "subscribers e st' = ?keep" by (simp add: subscribers_Some)
  from m dc have so: "stored e st' = Some ?keep" by (simp add: stored_def)
  have o: "\<forall>e'. e' \<noteq> e \<longrightarrow> stored e' st' = stored e' st"
    using remove_subscriber_other[of _ e F n st] assms(3) by simp
  have wf: "wf_state st'" using wf_remove_subscriber[OF assms(1), of F e n] assms(3) by simp
  have 7: "(\<forall>i\<in>set (subscribers e st). fname (F i) \<noteq> Some n)
            \<longrightarrow> contents st' = contents ?st1"
  proof
    assume "\<forall>i\<in>set (subscribers e st). fname (F i) \<noteq> Some n"
    then have "?keep = subscribers e st" by (simp add: filter_id_conv)
    with dc have "deref st' ?c = subscribers e st" by simp
    with assms(3) r ev dr show "contents st' = contents ?st1"
      by (intro remove_subscriber_contents[of F e n st st']) simp_all
  qed
  from m have g: "getitem e st' = (?c, st')" by (rule getitem_seen)
  then have g': "getitem e st' = (fst (getitem e st'), st')" by simp
  have 9: "emit F e args kwargs st' = (Inr (), st2, cs) \<and> map callee cs = ?keep \<and>
           (\<forall>c\<in>set cs. fname (F (callee c)) \<noteq> Some n)"
    if h: "run F (fst (getitem e st')) ?keep args kwargs st' = Some (st2, cs)" for st2 cs
  proof -
    from h have "run F (fst (getitem e st')) (subscribers e st') args kwargs (snd (getitem e st'))
                   = Some (st2, cs)"
      using g s by simp
    then have a: "emit F e args kwargs st' = (Inr (), st2, cs)" by (rule emit_run)
    have b: "map callee cs = ?keep" using run_facts[OF h] by simp
    then have "set (map callee cs) = set ?keep" by simp
    then have "\<forall>c\<in>set cs. fname (F (callee c)) \<noteq> Some n" by auto
    with a b show ?thesis by simp
  qed
  have 10: "emit F e args kwargs st' = (Inl x, st3, cs @ [c]) \<and>
            map callee (cs @ [c]) = pre @ [i] \<and>
            (\<forall>c\<in>set (cs @ [c]). fname (F (callee c)) \<noteq> Some n)"
    if h: "?keep = pre @ i # post \<and>
           run F (fst (getitem e st')) pre args kwargs st' = Some (st2, cs) \<and>
           call F i args kwargs st2 = (Inl x, st3, c)"
    for pre i post st2 cs x st3 c
  proof -
    from h have h1: "subscribers e st' = pre @ i # post" using s by simp
    from h have h2: "run F (fst (getitem e st')) pre args kwargs (snd (getitem e st'))
                       = Some (st2, cs)"
      using g by simp
    from h have h3: "call F i args kwargs st2 = (Inl x, st3, c)" by simp
    have a: "emit F e args kwargs st' = (Inl x, st3, cs @ [c])"
      using h1 h2 h3 by (rule emit_run_raise)
    have "map callee cs = pre" using run_facts[OF h2] by simp
    moreover from h3 have "callee c = i" by (auto simp: call_def split: prod.splits)
    ultimately have b: "map callee (cs @ [c]) = pre @ [i]" by simp
    from h have "set (pre @ [i]) \<subseteq> set ?keep" by auto
    with b have "set (map callee (cs @ [c])) \<subseteq> set ?keep" by simp
    then have "\<forall>c\<in>set (cs @ [c]). fname (F (callee c)) \<noteq> Some n" by auto
    with a b show ?thesis by simp
  qed
  from r s so o w wf 7 g' 9 10 show ?thesis by blast
qed

theorem remove_subscriber_by_name_witness:
  "wf_state tick_state \<and>
   subscribers ''tick'' tick_state = [1, 2] \<and>
   fname (objs 1) = Some ''inc'' \<and> fname (objs 2) = Some ''log'' \<and>
   subscribed_event_count tick_state = 2 \<and>
   remove_subscriber objs ''tick'' ''inc'' tick_state = (Inr (), log_state) \<and>
   subscribers ''tick'' log_state = [2] \<and>
   subscribed_event_count log_state = 1 \<and>
   run objs 2 [2] [] [] log_state
     = Some (log_state,
             [\<lparr>callee = 2, given_args = [], given_kwargs = [], outcome = Inr NoneV\<rparr>]) \<and>
   emit objs ''tick'' [] [] log_state
     = (Inr (), log_state,
        [\<lparr>callee = 2, given_args = [], given_kwargs = [], outcome = Inr NoneV\<rparr>]) \<and>
   subscribers ''tock'' tick_state = [] \<and>
   fst (remove_subscriber objs ''tock'' ''inc'' tick_state) = Inr () \<and>
   contents (snd (remove_subscriber objs ''tock'' ''inc'' tick_state))
     = [(''tick'', [1, 2]), (''tock'', [])] \<and>
   contents (snd (getitem ''tock'' tick_state)) = [(''tick'', [1, 2]), (''tock'', [])]"
proof -
  let ?c2 = "\<lparr>callee = 2, given_args = [], given_kwargs = [], outcome = Inr NoneV\<rparr> :: val invocation"
  have w: "wf_state tick_state" by (simp add: tick_state_eq wf_state_def)
  have s: "subscribers ''tick'' tick_state = [1, 2]" "subscribers ''tock'' tick_state = []"
          "subscribers ''tick'' log_state = [2]"
    by (simp_all add: tick_state_eq log_state_def subscribers_def stored_def deref_def)
  have n: "fname (objs 1) = Some ''inc''" "fname (objs 2) = Some ''log''"
    by (simp_all add: scenario_defs)
  have named: "\<forall>i\<in>set (subscribers ''tick'' tick_state). fname (objs i) \<noteq> None"
              "\<forall>i\<in>set (subscribers ''tock'' tick_state). fname (objs i) \<noteq> None"
    using n by (simp_all add: s)
  have c: "subscribed_event_count tick_state = 2" "subscribed_event_count log_state = 1"
    by (simp_all add: tick_state_eq log_state_def subscribed_event_count_def deref_def)
  have r1: "remove_subscriber objs ''tick'' ''inc'' tick_state = (Inr (), log_state)"
    by (simp add: tick_state_eq log_state_def remove_subscriber_def event_funcs_def set_copy_def
        set_remove_def remove_loop.simps gen_next.simps setiter_next_def getitem_def deref_def
        fresh_def scenario_defs)
  have g: "getitem ''tick'' log_state = (2, log_state)" by (simp add: log_state_def getitem_def)
  have ru: "run objs 2 [2] [] [] log_state = Some (log_state, [?c2])"
    by (simp add: log_state_def call_def deref_def scenario_defs)
  have k: "filter (\<lambda>i. fname (objs i) \<noteq> Some ''inc'') (subscribers ''tick'' tick_state) = [2]"
    by (simp add: s scenario_defs)
  have ru': "run objs (fst (getitem ''tick'' log_state))
               (filter (\<lambda>i. fname (objs i) \<noteq> Some ''inc'') (subscribers ''tick'' tick_state))
               [] [] log_state = Some (log_state, [?c2])"
    unfolding k g fst_conv by (rule ru)
  obtain r2 st2 where r2: "remove_subscriber objs ''tock'' ''inc'' tick_state = (r2, st2)"
    by (metis prod.collapse)
  have g2: "snd (getitem ''tock'' tick_state)
      = \<lparr>events = [(''tick'', 1), (''tock'', 2)], heap = [(1, [1, 2]), (2, [])], world = 0\<rparr>"
    by (simp add: tick_state_eq getitem_def fresh_def)
  have ct: "contents (snd (getitem ''tock'' tick_state)) = [(''tick'', [1, 2]), (''tock'', [])]"
    unfolding g2 by (simp add: contents_def deref_def)
  from remove_subscriber_by_name[OF w named(1) r1, of "[]" "[]"] ru'
  have e: "emit objs ''tick'' [] [] log_state = (Inr (), log_state, [?c2])" by blast
  from remove_subscriber_by_name[OF w named(2) r2, of "[]" "[]"] s(2)
  have "r2 = Inr () \<and> contents st2 = contents (snd (getitem ''tock'' tick_state))" by simp
  with r2 ct have t: "fst (remove_subscriber objs ''tock'' ''inc'' tick_state) = Inr ()"
    "contents (snd (remove_subscriber objs ''tock'' ''inc'' tick_state))
       = [(''tick'', [1, 2]), (''tock'', [])]"
    by simp_all
  show ?thesis
    by (intro conjI) (fact w s n c r1 ru e t ct)+
qed

text \<open>
  \<^bold>\<open>C9\<close>, as stated, fails for \<^verbatim>\<open>event_funcs\<close>: it is a generator function, so a call of
  it runs none of its body, and the lookup \<^verbatim>\<open>self._events[name]\<close> that would create the
  entry happens only when the generator is iterated. On a new bus, after
  \<^verbatim>\<open>event_funcs("tick")\<close> there is still no entry for \<^verbatim>\<open>"tick"\<close>.
\<close>

theorem event_funcs_call_creates_nothing:
  "stored ''tick'' s0 = None \<and>
   event_funcs ''tick'' s0 = (Created ''tick'', s0) \<and>
   stored ''tick'' (snd (event_funcs ''tick'' s0)) = None \<and>
   events (snd (event_funcs ''tick'' s0)) = []"
  by (simp add: event_funcs_def s0_def EventBus_def stored_def)

text \<open>
  \<^bold>\<open>C9\<close>, amended. Let \<open>e\<close> be an event name with no subscriber: one that has no entry, or
  whose entry is the empty set. Then \<^verbatim>\<open>event_func_names(e)\<close>, \<^verbatim>\<open>emit(e)\<close>,
  \<^verbatim>\<open>emit_only(e, ns)\<close>, \<^verbatim>\<open>remove_subscriber(e, n)\<close> and the first step of the iteration
  of \<^verbatim>\<open>event_funcs(e)\<close> raise nothing, call nothing, yield nothing, and leave the bus as
  the lookup of \<open>e\<close> leaves it: with an empty set stored under \<open>e\<close>, appended as a new entry
  when \<open>e\<close> had none. (\<^verbatim>\<open>remove_subscriber\<close> stores a copy of the empty set, another set
  object with the same members: the dictionary holds the same contents.) The call
  \<^verbatim>\<open>event_funcs(e)\<close> alone leaves the state as it was.
\<close>

theorem unseen_event_auto_created:
  assumes "subscribers e st = []"
  shows "event_func_names F e st = (Inr [], snd (getitem e st)) \<and>
         emit F e args kwargs st = (Inr (), snd (getitem e st), []) \<and>
         emit_only F e ns args kwargs st = (Inr (), snd (getitem e st), []) \<and>
         fst (remove_subscriber F e n st) = Inr () \<and>
         contents (snd (remove_subscriber F e n st)) = contents (snd (getitem e st)) \<and>
         world (snd (remove_subscriber F e n st)) = world st \<and>
         gen_next (fst (event_funcs e st)) (snd (event_funcs e st))
           = (Inr None, Finished, snd (getitem e st)) \<and>
         snd (event_funcs e st) = st \<and>
         stored e (snd (getitem e st)) = Some [] \<and>
         world (snd (getitem e st)) = world st \<and>
         (map_of (events st) e = None \<longrightarrow>
            events (snd (getitem e st)) = events st @ [(e, fresh st)] \<and>
            contents (snd (getitem e st)) = contents st @ [(e, [])])"
proof -
  let ?st1 = "snd (getitem e st)"
  have d: "deref ?st1 (fst (getitem e st)) = []" using assms by (simp add: getitem_deref)
  have 1: "event_func_names F e st = (Inr [], ?st1)"
    using assms by (simp add: event_func_names_unfold)
  have "run F (fst (getitem e st)) (subscribers e st) args kwargs ?st1 = Some (?st1, [])"
    using assms by simp
  then have 2: "emit F e args kwargs st = (Inr (), ?st1, [])" by (rule emit_run)
  have "run F (fst (getitem e st)) (filter (named_in F (normalize ns)) (subscribers e st))
          args kwargs ?st1 = Some (?st1, [])"
    using assms by simp
  moreover have "\<forall>i\<in>set (subscribers e st). fname (F i) \<noteq> None" using assms by simp
  ultimately have 3: "emit_only F e ns args kwargs st = (Inr (), ?st1, [])"
    by (intro emit_only_run)
  from remove_subscriber_empty[OF assms, of F n] have
    4: "fst (remove_subscriber F e n st) = Inr () \<and>
        contents (snd (remove_subscriber F e n st)) = contents ?st1 \<and>
        world (snd (remove_subscriber F e n st)) = world st"
    by auto
  have 5: "gen_next (fst (event_funcs e st)) (snd (event_funcs e st)) = (Inr None, Finished, ?st1)"
    using gen_next_stop[OF d] assms by (simp add: event_funcs_def gen_next_Created)
  have 6: "snd (event_funcs e st) = st" by (simp add: event_funcs_def)
  have 7: "stored e ?st1 = Some []" using assms by (simp add: stored_getitem)
  have 8: "map_of (events st) e = None \<longrightarrow>
            events ?st1 = events st @ [(e, fresh st)] \<and> contents ?st1 = contents st @ [(e, [])]"
  proof
    assume n: "map_of (events st) e = None"
    have "\<forall>p\<in>set (events st). snd p \<noteq> fresh st"
      using fresh_not_in_events[of st] by (metis image_eqI)
    then have "map (\<lambda>p. (fst p, deref (st\<lparr>events := events st @ [(e, fresh st)],
                                          heap := heap st @ [(fresh st, [])]\<rparr>) (snd p))) (events st)
               = map (\<lambda>p. (fst p, deref st (snd p))) (events st)"
      by (auto simp: deref_def map_add_def split: option.splits)
    then show "events ?st1 = events st @ [(e, fresh st)] \<and> contents ?st1 = contents st @ [(e, [])]"
      using n by (simp add: getitem_unseen contents_def) (simp add: deref_def map_add_def map_of_fresh)
  qed
  from 1 2 3 4 5 6 7 8 show ?thesis by simp
qed

theorem unseen_event_auto_created_witness:
  "subscribers ''tock'' tick_state = [] \<and>
   map_of (events tick_state) ''tock'' = None \<and>
   snd (getitem ''tock'' tick_state)
     = \<lparr>events = [(''tick'', 1), (''tock'', 2)], heap = [(1, [1, 2]), (2, [])], world = 0\<rparr> \<and>
   event_func_names objs ''tock'' tick_state
     = (Inr [], \<lparr>events = [(''tick'', 1), (''tock'', 2)], heap = [(1, [1, 2]), (2, [])],
                 world = 0\<rparr>) \<and>
   emit objs ''tock'' [IntV 7] [] tick_state
     = (Inr (), \<lparr>events = [(''tick'', 1), (''tock'', 2)], heap = [(1, [1, 2]), (2, [])],
                 world = 0\<rparr>, []) \<and>
   emit_only objs ''tock'' (Str ''inc'') [] [] tick_state
     = (Inr (), \<lparr>events = [(''tick'', 1), (''tock'', 2)], heap = [(1, [1, 2]), (2, [])],
                 world = 0\<rparr>, []) \<and>
   fst (remove_subscriber objs ''tock'' ''inc'' tick_state) = Inr () \<and>
   contents (snd (remove_subscriber objs ''tock'' ''inc'' tick_state))
     = [(''tick'', [1, 2]), (''tock'', [])] \<and>
   gen_next (fst (event_funcs ''tock'' tick_state)) (snd (event_funcs ''tock'' tick_state))
     = (Inr None, Finished,
        \<lparr>events = [(''tick'', 1), (''tock'', 2)], heap = [(1, [1, 2]), (2, [])], world = 0\<rparr>) \<and>
   snd (event_funcs ''tock'' tick_state) = tick_state \<and>
   contents tick_state = [(''tick'', [1, 2])]"
proof -
  have s: "subscribers ''tock'' tick_state = []"
    by (simp add: tick_state_eq subscribers_def stored_def)
  have m: "map_of (events tick_state) ''tock'' = None"
    by (simp add: tick_state_eq)
  have g: "snd (getitem ''tock'' tick_state)
      = \<lparr>events = [(''tick'', 1), (''tock'', 2)], heap = [(1, [1, 2]), (2, [])], world = 0\<rparr>"
    by (simp add: tick_state_eq getitem_def fresh_def)
  have c: "contents tick_state = [(''tick'', [1, 2])]"
    by (simp add: tick_state_eq contents_def deref_def)
  from unseen_event_auto_created[OF s, of objs "[IntV 7]" "[]" "Str ''inc''" "''inc''"]
       unseen_event_auto_created[OF s, of objs "[]" "[]" "Str ''inc''" "''inc''"]
       s m c
  show ?thesis unfolding g by simp
qed

text \<open>
  \<^bold>\<open>C10.\<close> \<^verbatim>\<open>remove_subscriber(e, n)\<close> leaves what is stored under every other event
  name \<open>e'\<close> as it was: the same members if \<open>e'\<close> has an entry, no entry if it has none.
  This holds in every state and on every path, the raising ones included.
\<close>

theorem remove_subscriber_frame:
  assumes "e' \<noteq> e"
  shows "stored e' (snd (remove_subscriber F e n st)) = stored e' st \<and>
         subscribers e' (snd (remove_subscriber F e n st)) = subscribers e' st \<and>
         map_of (events (snd (remove_subscriber F e n st))) e' = map_of (events st) e'"
proof -
  have 1: "stored e' (snd (remove_subscriber F e n st)) = stored e' st"
    using assms by (rule remove_subscriber_other)
  then have 2: "subscribers e' (snd (remove_subscriber F e n st)) = subscribers e' st"
    by (simp add: subscribers_def)
  let ?r = "fst (getitem e st)" and ?st1 = "snd (getitem e st)"
  obtain res st4 where
    l: "remove_loop F (Suspended ?r (length (subscribers e st)) 0) n (fresh ?st1)
          (snd (set_copy ?r ?st1)) = (res, st4)"
    by (metis prod.collapse)
  from remove_loop_frame[OF l] have "events st4 = events ?st1" by (simp add: set_copy_facts)
  then have 3: "map_of (events (snd (remove_subscriber F e n st))) e' = map_of (events st) e'"
    using l assms
    by (cases res) (simp_all add: remove_subscriber_unfold map_of_setitem getitem_other_entry)
  from 1 2 3 show ?thesis by simp
qed

theorem remove_subscriber_frame_witness:
  "''tock'' \<noteq> ''tick'' \<and>
   snd (on objs ''tock'' 1 tick_state)
     = \<lparr>events = [(''tick'', 1), (''tock'', 2)], heap = [(1, [1, 2]), (2, [1])], world = 0\<rparr> \<and>
   remove_subscriber objs ''tick'' ''inc'' (snd (on objs ''tock'' 1 tick_state))
     = (Inr (), \<lparr>events = [(''tick'', 3), (''tock'', 2)],
                 heap = [(1, [1, 2]), (2, [1]), (3, [2])], world = 0\<rparr>) \<and>
   stored ''tock'' (snd (on objs ''tock'' 1 tick_state)) = Some [1] \<and>
   stored ''tock'' (snd (remove_subscriber objs ''tick'' ''inc'' (snd (on objs ''tock'' 1 tick_state))))
     = Some [1] \<and>
   ''tock'' \<noteq> ''tick'' \<and>
   fst (remove_subscriber objs ''tick'' ''inc'' (snd (on objs ''tock'' 7 partial_state)))
     = Inl AttributeError \<and>
   stored ''tock'' (snd (on objs ''tock'' 7 partial_state)) = Some [7] \<and>
   stored ''tock'' (snd (remove_subscriber objs ''tick'' ''inc''
                           (snd (on objs ''tock'' 7 partial_state)))) = Some [7]"
proof -
  have n: "''tock'' \<noteq> ''tick''" by simp
  have o: "snd (on objs ''tock'' 1 tick_state)
     = \<lparr>events = [(''tick'', 1), (''tock'', 2)], heap = [(1, [1, 2]), (2, [1])], world = 0\<rparr>"
    by (simp add: tick_state_eq on_def getitem_def set_add_def deref_def fresh_def scenario_defs)
  have r: "remove_subscriber objs ''tick'' ''inc'' (snd (on objs ''tock'' 1 tick_state))
     = (Inr (), \<lparr>events = [(''tick'', 3), (''tock'', 2)],
                 heap = [(1, [1, 2]), (2, [1]), (3, [2])], world = 0\<rparr>)"
    unfolding o
    by (simp add: remove_subscriber_def event_funcs_def set_copy_def
        set_remove_def remove_loop.simps gen_next.simps setiter_next_def getitem_def deref_def
        fresh_def scenario_defs)
  have s: "stored ''tock'' (snd (on objs ''tock'' 1 tick_state)) = Some [1]"
    unfolding o by (simp add: stored_def deref_def)
  have o': "snd (on objs ''tock'' 7 partial_state)
     = \<lparr>events = [(''tick'', 1), (''tock'', 2)], heap = [(1, [1, 7]), (2, [7])], world = 0\<rparr>"
    by (simp add: partial_state_eq on_def getitem_def set_add_def deref_def fresh_def
        scenario_defs)
  have r': "fst (remove_subscriber objs ''tick'' ''inc'' (snd (on objs ''tock'' 7 partial_state)))
     = Inl AttributeError"
    unfolding o'
    by (simp add: remove_subscriber_def event_funcs_def set_copy_def
        set_remove_def remove_loop.simps gen_next.simps setiter_next_def getitem_def deref_def
        fresh_def scenario_defs)
  have s': "stored ''tock'' (snd (on objs ''tock'' 7 partial_state)) = Some [7]"
    unfolding o' by (simp add: stored_def deref_def)
  from remove_subscriber_frame[OF n, of objs "''inc''" "snd (on objs ''tock'' 1 tick_state)"]
       remove_subscriber_frame[OF n, of objs "''inc''" "snd (on objs ''tock'' 7 partial_state)"]
       n o r s r' s'
  show ?thesis by simp
qed

end
